theory Spec2Isabelle
  imports Complex_Main
begin

section \<open>Lock manager (src/nodes/lock_manager.py)\<close>

text \<open>
  The lock table of \<^verbatim>\<open>LockManager\<close>: \<^verbatim>\<open>locks\<close> maps a resource id to a
  \<^verbatim>\<open>LockInfo\<close>, \<^verbatim>\<open>client_locks\<close> maps a client to the resources it holds, and the
  deadlock detector keeps the wait-for graph as a dictionary from a client to the set of
  clients it waits for. Timestamps are Python floats read from \<^verbatim>\<open>time.time()\<close>; they are
  modelled as reals (only their order is used). Python sets are HOL sets, the waiter
  list is a list, dictionaries are maps.
\<close>

datatype LockType = SHARED | EXCLUSIVE

record LockRequest =
  req_resource_id :: string
  req_lock_type :: LockType
  req_client_id :: string
  req_timestamp :: real

record LockInfo =
  resource_id :: string
  lock_type :: LockType
  holders :: "string set"
  waiters :: "LockRequest list"
  acquired_at :: real

record LockManager =
  locks :: "string \<rightharpoonup> LockInfo"
  client_locks :: "string \<rightharpoonup> string set"
  wait_for_graph :: "string \<rightharpoonup> string set"

text \<open>
  A committed command is a dictionary with an \<^verbatim>\<open>operation\<close> key;
  \<^verbatim>\<open>_apply_lock_operation\<close> dispatches \<^verbatim>\<open>acquire\<close> and \<^verbatim>\<open>release\<close> and ignores every
  other operation.
\<close>

datatype lock_command =
    Acquire string LockType string real
  | Release string string
  | OtherOperation

definition LockManager_init :: LockManager where
  "LockManager_init = \<lparr>locks = Map.empty, client_locks = Map.empty, wait_for_graph = Map.empty\<rparr>"

text \<open>
  \<^verbatim>\<open>for holder in lock.holders: self.deadlock_detector.add_edge(client_id, holder)\<close>:
  \<^verbatim>\<open>add_edge\<close> creates the entry of \<^verbatim>\<open>client_from\<close> on demand, so nothing is created
  when there is no holder.
\<close>

definition add_edges :: "(string \<rightharpoonup> string set) \<Rightarrow> string \<Rightarrow> string set \<Rightarrow> (string \<rightharpoonup> string set)" where
  "add_edges g client_from hs =
     (if hs = {} then g
      else g(client_from \<mapsto> (case g client_from of None \<Rightarrow> hs | Some old \<Rightarrow> old \<union> hs)))"

text \<open>
  \<^verbatim>\<open>for holder in lock.holders: self.deadlock_detector.remove_edge(client_id, holder)\<close>:
  \<^verbatim>\<open>remove_edge\<close> discards only when \<^verbatim>\<open>client_from\<close> has an entry.
\<close>

definition remove_edges :: "(string \<rightharpoonup> string set) \<Rightarrow> string \<Rightarrow> string set \<Rightarrow> (string \<rightharpoonup> string set)" where
  "remove_edges g client_from hs =
     (case g client_from of None \<Rightarrow> g | Some old \<Rightarrow> g(client_from \<mapsto> old - hs))"

definition new_lock :: "string \<Rightarrow> LockType \<Rightarrow> real \<Rightarrow> LockInfo" where
  "new_lock rid lt ts =
     \<lparr>resource_id = rid, lock_type = lt, holders = {}, waiters = [], acquired_at = ts\<rparr>"

definition can_grant :: "LockInfo \<Rightarrow> LockType \<Rightarrow> bool" where
  "can_grant lock lt =
     (if holders lock = {} then True
      else if lt = SHARED \<and> lock_type lock = SHARED then True
      else False)"

definition apply_acquire :: "string \<Rightarrow> LockType \<Rightarrow> string \<Rightarrow> real \<Rightarrow> LockManager \<Rightarrow> LockManager" where
  "apply_acquire rid lt cid ts m =
     (let lock = (case locks m rid of None \<Rightarrow> new_lock rid lt ts | Some l \<Rightarrow> l)
      in if can_grant lock lt then
           m\<lparr>locks := (locks m)(rid \<mapsto> lock\<lparr>holders := insert cid (holders lock), lock_type := lt\<rparr>),
             client_locks := (client_locks m)(cid \<mapsto>
                insert rid (case client_locks m cid of None \<Rightarrow> {} | Some rs \<Rightarrow> rs))\<rparr>
         else
           m\<lparr>locks := (locks m)(rid \<mapsto> lock\<lparr>waiters := waiters lock @
                [\<lparr>req_resource_id = rid, req_lock_type = lt, req_client_id = cid, req_timestamp = ts\<rparr>]\<rparr>),
             wait_for_graph := add_edges (wait_for_graph m) cid (holders lock)\<rparr>)"

text \<open>
  \<^verbatim>\<open>_apply_release\<close>. \<^verbatim>\<open>lock.waiters.sort(key=lambda x: x.timestamp)\<close> is a stable sort,
  as \<^const>\<open>sort_key\<close> is; the first waiter is popped and its acquire is applied again
  with the fields of the request.
\<close>

definition apply_release :: "string \<Rightarrow> string \<Rightarrow> LockManager \<Rightarrow> LockManager" where
  "apply_release rid cid m =
     (case locks m rid of
        None \<Rightarrow> m
      | Some lock \<Rightarrow>
          (let hs = holders lock - {cid};
               lock1 = lock\<lparr>holders := hs\<rparr>;
               m1 = m\<lparr>locks := (locks m)(rid \<mapsto> lock1),
                      client_locks := (case client_locks m cid of
                                         None \<Rightarrow> client_locks m
                                       | Some rs \<Rightarrow> (client_locks m)(cid \<mapsto> rs - {rid})),
                      wait_for_graph := remove_edges (wait_for_graph m) cid hs\<rparr>
           in if hs = {} \<and> waiters lock \<noteq> [] then
                (case sort_key req_timestamp (waiters lock) of
                   [] \<Rightarrow> m1
                 | first_waiter # rest \<Rightarrow>
                     apply_acquire (req_resource_id first_waiter) (req_lock_type first_waiter)
                       (req_client_id first_waiter) (req_timestamp first_waiter)
                       (m1\<lparr>locks := (locks m1)(rid \<mapsto> lock1\<lparr>waiters := rest\<rparr>)\<rparr>))
              else m1))"

fun apply_lock_operation :: "LockManager \<Rightarrow> lock_command \<Rightarrow> LockManager" where
  "apply_lock_operation m (Acquire rid lt cid ts) = apply_acquire rid lt cid ts m"
| "apply_lock_operation m (Release rid cid) = apply_release rid cid m"
| "apply_lock_operation m OtherOperation = m"

text \<open>The lock table after a sequence of committed commands, from the empty table.\<close>

definition apply_commands :: "lock_command list \<Rightarrow> LockManager" where
  "apply_commands cmds = foldl apply_lock_operation LockManager_init cmds"

text \<open>The invariant of the lock table: an exclusive lock has at most one holder.\<close>

definition exclusive_single :: "LockManager \<Rightarrow> bool" where
  "exclusive_single m =
     (\<forall>r l. locks m r = Some l \<longrightarrow> finite (holders l) \<and>
        (lock_type l = EXCLUSIVE \<longrightarrow> card (holders l) \<le> 1))"

text \<open>
  Every queued request names the resource in whose queue it waits (\<^verbatim>\<open>_apply_acquire\<close>
  builds the request from the command's own \<^verbatim>\<open>resource_id\<close>).
\<close>

definition waiters_own_resource :: "LockManager \<Rightarrow> bool" where
  "waiters_own_resource m =
     (\<forall>r l. locks m r = Some l \<longrightarrow> (\<forall>w \<in> set (waiters l). req_resource_id w = r))"

text \<open>
  The entry of a resource after \<^verbatim>\<open>_apply_release\<close>, as the code leaves it: the client
  is discarded from the holders; when that empties the holders and requests are queued,
  the queue is sorted by timestamp and its first request alone becomes the holder,
  with its own mode. The entry itself always stays in the table.
\<close>

definition released_lock :: "LockInfo \<Rightarrow> string \<Rightarrow> LockInfo" where
  "released_lock l c =
     (if holders l - {c} = {} \<and> waiters l \<noteq> [] then
        (case sort_key req_timestamp (waiters l) of
           [] \<Rightarrow> l\<lparr>holders := {}\<rparr>
         | w # rest \<Rightarrow>
             l\<lparr>holders := {req_client_id w}, lock_type := req_lock_type w, waiters := rest\<rparr>)
      else l\<lparr>holders := holders l - {c}\<rparr>)"

section \<open>Raft (src/consensus/raft.py)\<close>

text \<open>
  Python raises where HOL would return an unspecified value: an index out of range, a
  missing dictionary key, a division by zero. The model returns these as values.
\<close>

datatype py_exception = IndexError | KeyError | ZeroDivisionError | ValueError

text \<open>\<^verbatim>\<open>xs[i]\<close>: a negative index counts from the end of the list.\<close>

definition py_index :: "'a list \<Rightarrow> int \<Rightarrow> py_exception + 'a" where
  "py_index xs i =
     (if 0 \<le> i \<and> i < int (length xs) then Inr (xs ! nat i)
      else if i < 0 \<and> - int (length xs) \<le> i then Inr (xs ! nat (int (length xs) + i))
      else Inl IndexError)"

text \<open>\<^verbatim>\<open>xs[:k]\<close>: a negative bound counts from the end, and the slice never raises.\<close>

definition py_slice_to :: "'a list \<Rightarrow> int \<Rightarrow> 'a list" where
  "py_slice_to xs k =
     (if k < 0 then take (nat (int (length xs) + k)) xs else take (nat k) xs)"

datatype RaftState = FOLLOWER | CANDIDATE | LEADER

text \<open>
  A \<^verbatim>\<open>LogEntry\<close>; the command is a dictionary whose content the consensus layer never
  reads, so its type is a parameter.
\<close>

record 'c LogEntry =
  entry_term :: int
  entry_index :: int
  entry_command :: 'c
  entry_timestamp :: real

text \<open>
  The fields of \<^verbatim>\<open>RaftNode\<close> that the replication path reads or writes. The log is a
  Python list, indexed from 0; \<^verbatim>\<open>cluster_nodes\<close> is the dictionary of the peers (this
  node excluded), kept as the list of its keys; \<^verbatim>\<open>next_index\<close> and \<^verbatim>\<open>match_index\<close>
  are dictionaries. \<open>applied\<close> records the commands handed to \<^verbatim>\<open>on_commit_callback\<close>, in
  order. The election timeout, the votes and the asyncio tasks are left out: no function
  below reads them.
\<close>

record 'c RaftNode =
  node_id :: string
  cluster_nodes :: "string list"
  current_term :: int
  voted_for :: "string option"
  raft_log :: "'c LogEntry list"
  commit_index :: int
  last_applied :: int
  state :: RaftState
  next_index :: "string \<rightharpoonup> int"
  match_index :: "string \<rightharpoonup> int"
  last_heartbeat :: real
  applied :: "'c list"

text \<open>
  The \<^verbatim>\<open>data\<close> dictionary of an \<^verbatim>\<open>append_entries\<close> message is read with
  \<^verbatim>\<open>data.get(key, default)\<close>: a missing key is \<open>None\<close> here and the handler supplies the
  default.
\<close>

record 'c AppendEntriesMessage =
  msg_term :: int
  msg_sender_id :: string
  msg_prev_log_index :: "int option"
  msg_prev_log_term :: "int option"
  msg_entries :: "'c LogEntry list option"
  msg_leader_commit :: "int option"

record AppendEntriesResponse =
  resp_term :: int
  resp_sender_id :: string
  resp_success :: "bool option"
  resp_match_index :: "int option"

text \<open>\<^verbatim>\<open>_step_down\<close>; \<open>now\<close> is the reading of \<^verbatim>\<open>time.time()\<close>.\<close>

definition step_down :: "real \<Rightarrow> int \<Rightarrow> 'c RaftNode \<Rightarrow> 'c RaftNode" where
  "step_down now new_term s =
     s\<lparr>current_term := new_term, state := FOLLOWER, voted_for := None, last_heartbeat := now\<rparr>"

text \<open>
  \<^verbatim>\<open>_apply_committed_entries\<close>: the loop \<^verbatim>\<open>while self.last_applied < self.commit_index\<close>,
  one entry per iteration.
\<close>

function apply_committed_entries :: "'c RaftNode \<Rightarrow> py_exception + 'c RaftNode" where
  "apply_committed_entries s =
     (if last_applied s < commit_index s then
        (case py_index (raft_log s) (last_applied s + 1) of
           Inl e \<Rightarrow> Inl e
         | Inr entry \<Rightarrow>
             apply_committed_entries
               (s\<lparr>last_applied := last_applied s + 1, applied := applied s @ [entry_command entry]\<rparr>))
      else Inr s)"
  by pat_completeness auto
termination
  by (relation "measure (\<lambda>s. nat (commit_index s - last_applied s))") auto

declare apply_committed_entries.simps [simp del]

text \<open>
  \<^verbatim>\<open>_update_commit_index\<close>. The count starts at 1 for the leader itself and adds every
  peer whose \<^verbatim>\<open>match_index.get(peer_id, 0)\<close> is at least \<open>n\<close>; the quorum is
  \<^verbatim>\<open>(len(self.cluster_nodes) + 1) // 2 + 1\<close>.
\<close>

definition replication_count :: "'c RaftNode \<Rightarrow> int \<Rightarrow> int" where
  "replication_count s n =
     1 + int (length (filter
           (\<lambda>peer_id. n \<le> (case match_index s peer_id of None \<Rightarrow> 0 | Some i \<Rightarrow> i))
           (cluster_nodes s)))"

definition quorum :: "'c RaftNode \<Rightarrow> int" where
  "quorum s = (int (length (cluster_nodes s)) + 1) div 2 + 1"

text \<open>
  The loop \<^verbatim>\<open>for n in range(len(self.log) - 1, self.commit_index, -1)\<close>, started at
  \<open>n = len(self.log) - 1\<close>: it returns the first \<open>n\<close> that passes both tests (where the
  code assigns \<^verbatim>\<open>commit_index\<close> and breaks), or \<open>None\<close> when the range is exhausted.
\<close>

function find_commit :: "'c RaftNode \<Rightarrow> int \<Rightarrow> py_exception + int option" where
  "find_commit s n =
     (if commit_index s < n then
        (case py_index (raft_log s) n of
           Inl e \<Rightarrow> Inl e
         | Inr entry \<Rightarrow>
             if entry_term entry = current_term s \<and> quorum s \<le> replication_count s n
             then Inr (Some n)
             else find_commit s (n - 1))
      else Inr None)"
  by pat_completeness auto
termination
  by (relation "measure (\<lambda>(s, n). nat (n - commit_index s))") auto

declare find_commit.simps [simp del]

definition update_commit_index :: "'c RaftNode \<Rightarrow> py_exception + 'c RaftNode" where
  "update_commit_index s =
     (if state s \<noteq> LEADER then Inr s
      else
        (case find_commit s (int (length (raft_log s)) - 1) of
           Inl e \<Rightarrow> Inl e
         | Inr None \<Rightarrow> Inr s
         | Inr (Some n) \<Rightarrow> apply_committed_entries (s\<lparr>commit_index := n\<rparr>)))"

text \<open>
  \<^verbatim>\<open>_handle_append_entries_response\<close>. On failure the code reads
  \<^verbatim>\<open>self.next_index[peer_id]\<close>, which raises for a peer without an entry.
\<close>

definition handle_append_entries_response ::
    "real \<Rightarrow> string \<Rightarrow> AppendEntriesResponse \<Rightarrow> 'c RaftNode \<Rightarrow> py_exception + 'c RaftNode" where
  "handle_append_entries_response now peer_id response s =
     (if current_term s < resp_term response then Inr (step_down now (resp_term response) s)
      else if state s \<noteq> LEADER then Inr s
      else
        (let success = (case resp_success response of None \<Rightarrow> False | Some b \<Rightarrow> b);
             mi = (case resp_match_index response of None \<Rightarrow> 0 | Some i \<Rightarrow> i)
         in if success then
              update_commit_index
                (s\<lparr>next_index := (next_index s)(peer_id \<mapsto> mi + 1),
                   match_index := (match_index s)(peer_id \<mapsto> mi)\<rparr>)
            else
              (case next_index s peer_id of
                 None \<Rightarrow> Inl KeyError
               | Some ni \<Rightarrow> Inr (s\<lparr>next_index := (next_index s)(peer_id \<mapsto> max 0 (ni - 1))\<rparr>))))"

text \<open>
  \<^verbatim>\<open>_handle_append_entries\<close>. The test of the log is evaluated left to right with
  Python's short circuit: \<^verbatim>\<open>prev_log_index == -1 or (prev_log_index < len(self.log) and
  self.log[prev_log_index].term == prev_log_term)\<close>.
\<close>

definition log_matches :: "'c LogEntry list \<Rightarrow> int \<Rightarrow> int \<Rightarrow> py_exception + bool" where
  "log_matches lg prev_log_index prev_log_term =
     (if prev_log_index = - 1 then Inr True
      else if prev_log_index < int (length lg) then
        (case py_index lg prev_log_index of
           Inl e \<Rightarrow> Inl e
         | Inr entry \<Rightarrow> Inr (entry_term entry = prev_log_term))
      else Inr False)"

definition append_entries_reply :: "'c RaftNode \<Rightarrow> bool \<Rightarrow> int \<Rightarrow> AppendEntriesResponse" where
  "append_entries_reply s success mi =
     \<lparr>resp_term = current_term s, resp_sender_id = node_id s,
      resp_success = Some success, resp_match_index = Some mi\<rparr>"

text \<open>The four \<^verbatim>\<open>data.get\<close> reads of the handler, with their defaults.\<close>

definition prev_log_index_of :: "'c AppendEntriesMessage \<Rightarrow> int" where
  "prev_log_index_of message = (case msg_prev_log_index message of None \<Rightarrow> - 1 | Some i \<Rightarrow> i)"

definition prev_log_term_of :: "'c AppendEntriesMessage \<Rightarrow> int" where
  "prev_log_term_of message = (case msg_prev_log_term message of None \<Rightarrow> 0 | Some t \<Rightarrow> t)"

definition entries_of :: "'c AppendEntriesMessage \<Rightarrow> 'c LogEntry list" where
  "entries_of message = (case msg_entries message of None \<Rightarrow> [] | Some es \<Rightarrow> es)"

definition leader_commit_of :: "'c AppendEntriesMessage \<Rightarrow> int" where
  "leader_commit_of message = (case msg_leader_commit message of None \<Rightarrow> 0 | Some c \<Rightarrow> c)"

definition handle_append_entries ::
    "real \<Rightarrow> 'c AppendEntriesMessage \<Rightarrow> 'c RaftNode
      \<Rightarrow> py_exception + (AppendEntriesResponse \<times> 'c RaftNode)" where
  "handle_append_entries now message s =
     (if msg_term message < current_term s then Inr (append_entries_reply s False 0, s)
      else
        (let s1 = s\<lparr>last_heartbeat := now,
                     state := (if state s = CANDIDATE then FOLLOWER else state s)\<rparr>;
             prev_log_index = prev_log_index_of message;
             prev_log_term = prev_log_term_of message
         in case log_matches (raft_log s1) prev_log_index prev_log_term of
              Inl e \<Rightarrow> Inl e
            | Inr False \<Rightarrow> Inr (append_entries_reply s1 False 0, s1)
            | Inr True \<Rightarrow>
                (let entries_data = entries_of message;
                     new_index = prev_log_index + 1;
                     s2 = (if entries_data \<noteq> [] then
                             s1\<lparr>raft_log :=
                                 (if new_index < int (length (raft_log s1))
                                  then py_slice_to (raft_log s1) new_index
                                  else raft_log s1) @ entries_data\<rparr>
                           else s1);
                     mi = prev_log_index + int (length entries_data);
                     leader_commit = leader_commit_of message
                 in if commit_index s2 < leader_commit then
                      (case apply_committed_entries
                              (s2\<lparr>commit_index := min leader_commit (int (length (raft_log s2)) - 1)\<rparr>) of
                         Inl e \<Rightarrow> Inl e
                       | Inr s3 \<Rightarrow> Inr (append_entries_reply s3 True mi, s3))
                    else Inr (append_entries_reply s2 True mi, s2))))"

text \<open>
  The two tests of \<^verbatim>\<open>_update_commit_index\<close> on an index, as the code computes them.
\<close>

definition passes :: "'c RaftNode \<Rightarrow> int \<Rightarrow> bool" where
  "passes s n \<longleftrightarrow>
     entry_term (raft_log s ! nat n) = current_term s \<and> quorum s \<le> replication_count s n"

text \<open>
  The condition of the specification on an index, written without the code's count and
  threshold. The cluster is the leader and its peers; the nodes known to hold the entry
  at \<open>n\<close> are the leader (whose own last log index reaches \<open>n\<close>) and the peers whose
  \<^verbatim>\<open>match_index\<close> is at least \<open>n\<close>; they are a quorum when they are at least
  \<open>\<lfloor>N / 2\<rfloor> + 1\<close> of the \<open>N\<close> nodes of the cluster, that is, more than half of them. The
  index is committable when it is beyond \<^verbatim>\<open>commit_index\<close> and within the leader's log,
  such a quorum holds it, and its entry is of the current term.
\<close>

definition cluster_size :: "'c RaftNode \<Rightarrow> nat" where
  "cluster_size s = card (set (cluster_nodes s)) + 1"

definition holders_of_entry :: "'c RaftNode \<Rightarrow> int \<Rightarrow> nat" where
  "holders_of_entry s n =
     1 + card {p \<in> set (cluster_nodes s).
              n \<le> (case match_index s p of None \<Rightarrow> 0 | Some i \<Rightarrow> i)}"

definition committable :: "'c RaftNode \<Rightarrow> int \<Rightarrow> bool" where
  "committable s n \<longleftrightarrow>
     commit_index s < n \<and> n \<le> int (length (raft_log s)) - 1 \<and>
     cluster_size s div 2 + 1 \<le> holders_of_entry s n \<and>
     entry_term (raft_log s ! nat n) = current_term s"

text \<open>
  The acceptance condition of the specification, in the numbering of the code: the log
  is indexed from 0 and the sentinel \<^verbatim>\<open>prev_log_index\<close> is \<open>-1\<close>.
\<close>

definition accepts :: "'c RaftNode \<Rightarrow> 'c AppendEntriesMessage \<Rightarrow> bool" where
  "accepts s message \<longleftrightarrow>
     current_term s \<le> msg_term message \<and>
     (prev_log_index_of message = - 1 \<or>
      (0 \<le> prev_log_index_of message \<and>
       prev_log_index_of message < int (length (raft_log s)) \<and>
       entry_term (raft_log s ! nat (prev_log_index_of message)) = prev_log_term_of message))"

text \<open>
  The bounds under which the handlers are studied: both indices start at 0,
  \<^verbatim>\<open>last_applied\<close> only grows, and \<^verbatim>\<open>commit_index\<close> is only ever set to an index of the
  log or to \<open>min(leader_commit, len(log) - 1)\<close>.
\<close>

definition raft_bounds :: "'c RaftNode \<Rightarrow> bool" where
  "raft_bounds s \<longleftrightarrow> - 1 \<le> commit_index s \<and> 0 \<le> last_applied s"

text \<open>Concrete nodes and messages used to run the model.\<close>

definition leader0 :: "string RaftNode" where
  "leader0 =
     \<lparr>node_id = ''n1'', cluster_nodes = [''n2'', ''n3''], current_term = 2, voted_for = Some ''n1'',
      raft_log = [\<lparr>entry_term = 1, entry_index = 0, entry_command = ''a'', entry_timestamp = 0\<rparr>,
                  \<lparr>entry_term = 2, entry_index = 1, entry_command = ''b'', entry_timestamp = 0\<rparr>,
                  \<lparr>entry_term = 2, entry_index = 2, entry_command = ''c'', entry_timestamp = 0\<rparr>],
      commit_index = 0, last_applied = 0, state = LEADER,
      next_index = [''n2'' \<mapsto> 1, ''n3'' \<mapsto> 1], match_index = [''n2'' \<mapsto> 0, ''n3'' \<mapsto> 0],
      last_heartbeat = 0, applied = []\<rparr>"

definition follower0 :: "string RaftNode" where
  "follower0 =
     \<lparr>node_id = ''n2'', cluster_nodes = [''n1'', ''n3''], current_term = 1, voted_for = None,
      raft_log = [\<lparr>entry_term = 1, entry_index = 0, entry_command = ''a'', entry_timestamp = 0\<rparr>,
                  \<lparr>entry_term = 1, entry_index = 1, entry_command = ''x'', entry_timestamp = 0\<rparr>,
                  \<lparr>entry_term = 1, entry_index = 2, entry_command = ''y'', entry_timestamp = 0\<rparr>],
      commit_index = 0, last_applied = 0, state = FOLLOWER,
      next_index = Map.empty, match_index = Map.empty,
      last_heartbeat = 0, applied = []\<rparr>"

definition heartbeat0 :: "string AppendEntriesMessage" where
  "heartbeat0 =
     \<lparr>msg_term = 1, msg_sender_id = ''n1'', msg_prev_log_index = Some 0, msg_prev_log_term = Some 1,
      msg_entries = Some [], msg_leader_commit = Some 5\<rparr>"

definition append0 :: "string AppendEntriesMessage" where
  "append0 =
     \<lparr>msg_term = 1, msg_sender_id = ''n1'', msg_prev_log_index = Some 0, msg_prev_log_term = Some 1,
      msg_entries = Some [\<lparr>entry_term = 1, entry_index = 1, entry_command = ''b'', entry_timestamp = 0\<rparr>],
      msg_leader_commit = Some 5\<rparr>"

section \<open>Queue (src/nodes/queue_node.py)\<close>

text \<open>
  A Python \<^verbatim>\<open>dict\<close> whose order matters is an association list in insertion order:
  an assignment replaces the value of a present key in place and appends a new key;
  \<^verbatim>\<open>del\<close> removes the key.
\<close>

fun dict_set :: "('k \<times> 'v) list \<Rightarrow> 'k \<Rightarrow> 'v \<Rightarrow> ('k \<times> 'v) list" where
  "dict_set [] k v = [(k, v)]"
| "dict_set ((k', v') # d) k v = (if k' = k then (k, v) # d else (k', v') # dict_set d k v)"

definition dict_del :: "('k \<times> 'v) list \<Rightarrow> 'k \<Rightarrow> ('k \<times> 'v) list" where
  "dict_del d k = filter (\<lambda>kv. fst kv \<noteq> k) d"

text \<open>\<^verbatim>\<open>a % b\<close> on integers: the result has the sign of \<open>b\<close>, as HOL's \<open>mod\<close>.\<close>

definition py_mod :: "int \<Rightarrow> int \<Rightarrow> py_exception + int" where
  "py_mod a b = (if b = 0 then Inl ZeroDivisionError else Inr (a mod b))"

text \<open>\<^verbatim>\<open>str\<close> of an integer, as an f-string prints it.\<close>

definition digit_char :: "nat \<Rightarrow> char" where
  "digit_char n = ''0123456789'' ! n"

fun str_nat :: "nat \<Rightarrow> string" where
  "str_nat n =
     (if n < 10 then [digit_char n]
      else str_nat (n div 10) @ [digit_char (n mod 10)])"

declare str_nat.simps [simp del]

definition str_int :: "int \<Rightarrow> string" where
  "str_int i = (if i < 0 then CHR ''-'' # str_nat (nat (- i)) else str_nat (nat i))"

text \<open>
  What the code takes from outside: the MD5 digest read as an integer
  (\<^verbatim>\<open>int(hashlib.md5(key.encode()).hexdigest(), 16)\<close>), Python's built-in \<^verbatim>\<open>hash\<close> on a
  node name or on \<^verbatim>\<open>None\<close>, \<^verbatim>\<open>Config.QUEUE_PARTITIONS\<close>, and the subtraction of two
  floats. A float is the real number it denotes; \<^verbatim>\<open>a - b\<close> on two floats is the IEEE
  double nearest to the real difference, not the difference itself, so it is a
  parameter (\<open>float_sub\<close>) and nothing is assumed of it. Comparisons of floats are exact.
\<close>

record runtime =
  md5_int :: "string \<Rightarrow> int"
  builtin_hash :: "string option \<Rightarrow> int"
  QUEUE_PARTITIONS :: int
  float_sub :: "real \<Rightarrow> real \<Rightarrow> real"

record 'd Message =
  message_id :: string
  msg_partition :: int
  msg_data :: 'd
  msg_timestamp :: real
  attempts :: int
  delivered :: bool

text \<open>
  \<^verbatim>\<open>ConsistentHash\<close>: \<^verbatim>\<open>ring\<close> is a dictionary from hash values to node names and
  \<^verbatim>\<open>sorted_keys\<close> the sorted list of its keys.
\<close>

record ConsistentHash =
  virtual_nodes :: nat
  ring :: "(int \<times> string) list"
  sorted_keys :: "int list"

definition ConsistentHash_empty :: "nat \<Rightarrow> ConsistentHash" where
  "ConsistentHash_empty vn = \<lparr>virtual_nodes = vn, ring = [], sorted_keys = []\<rparr>"

definition add_node :: "runtime \<Rightarrow> string \<Rightarrow> ConsistentHash \<Rightarrow> ConsistentHash" where
  "add_node rt node ch =
     (let r = foldl (\<lambda>r i. dict_set r (md5_int rt (node @ '':'' @ str_nat i)) node)
                (ring ch) [0..<virtual_nodes ch]
      in ch\<lparr>ring := r, sorted_keys := sort (map fst r)\<rparr>)"

definition ConsistentHash_init :: "runtime \<Rightarrow> string list \<Rightarrow> nat \<Rightarrow> ConsistentHash" where
  "ConsistentHash_init rt nodes vn = foldl (\<lambda>ch node. add_node rt node ch) (ConsistentHash_empty vn) nodes"

definition ring_lookup :: "(int \<times> string) list \<Rightarrow> int \<Rightarrow> py_exception + string option" where
  "ring_lookup r k = (case map_of r k of None \<Rightarrow> Inl KeyError | Some node \<Rightarrow> Inr (Some node))"

text \<open>
  \<^verbatim>\<open>get_node\<close>: \<open>None\<close> for an empty ring; otherwise the node of the first key that is at
  least the hash of the key and, when there is none, of the first key of all.
\<close>

definition get_node :: "runtime \<Rightarrow> ConsistentHash \<Rightarrow> string \<Rightarrow> py_exception + string option" where
  "get_node rt ch key =
     (if ring ch = [] then Inr None
      else
        (case find (\<lambda>ring_hash. md5_int rt key \<le> ring_hash) (sorted_keys ch) of
           Some ring_hash \<Rightarrow> ring_lookup (ring ch) ring_hash
         | None \<Rightarrow>
             (case sorted_keys ch of
                [] \<Rightarrow> Inl IndexError
              | k # _ \<Rightarrow> ring_lookup (ring ch) k)))"

text \<open>
  The state of a \<^verbatim>\<open>QueueNode\<close>. \<^verbatim>\<open>partitions\<close> is a \<^verbatim>\<open>defaultdict(list)\<close>: a partition
  never written is the empty list. \<^verbatim>\<open>pending_acks\<close> is a dictionary keyed by the string
  \<^verbatim>\<open>consumer_id:message_id\<close>. The Redis client is absent (\<open>None\<close>) or a store from keys
  to persisted messages; the store is taken to answer every call (the code logs and
  swallows its failures). The four counters of \<^verbatim>\<open>stats\<close> are fields. The metrics
  collector is left out.
\<close>

record 'd QueueNode =
  q_node_id :: string
  consistent_hash :: ConsistentHash
  partitions :: "int \<Rightarrow> 'd Message list"
  pending_acks :: "(string \<times> 'd Message) list"
  redis_client :: "(string \<rightharpoonup> 'd Message) option"
  produced :: int
  consumed :: int
  redelivered :: int
  persisted :: int

definition get_partition :: "runtime \<Rightarrow> 'd QueueNode \<Rightarrow> string \<Rightarrow> py_exception + int" where
  "get_partition rt q key =
     (case get_node rt (consistent_hash q) key of
        Inl e \<Rightarrow> Inl e
      | Inr node \<Rightarrow> py_mod (builtin_hash rt node) (QUEUE_PARTITIONS rt))"

text \<open>
  \<^verbatim>\<open>produce\<close>. \<open>now_repr\<close> is the text of the first \<^verbatim>\<open>time.time()\<close> in the message id and
  \<open>now\<close> the reading that \<^verbatim>\<open>Message\<close> takes as its default \<^verbatim>\<open>timestamp\<close>. A
  \<^verbatim>\<open>partition_key\<close> that is \<^verbatim>\<open>None\<close> or the empty string is falsy.
\<close>

definition choose_partition :: "runtime \<Rightarrow> 'd QueueNode \<Rightarrow> string option \<Rightarrow> py_exception + int" where
  "choose_partition rt q partition_key =
     (case partition_key of
        None \<Rightarrow> py_mod (produced q) (QUEUE_PARTITIONS rt)
      | Some key \<Rightarrow>
          if key \<noteq> [] then get_partition rt q key
          else py_mod (produced q) (QUEUE_PARTITIONS rt))"

definition new_message :: "'d QueueNode \<Rightarrow> string \<Rightarrow> real \<Rightarrow> int \<Rightarrow> 'd \<Rightarrow> 'd Message" where
  "new_message q now_repr now p d =
     \<lparr>message_id = q_node_id q @ '':'' @ now_repr @ '':'' @ str_int (produced q),
      msg_partition = p, msg_data = d, msg_timestamp = now, attempts = 0, delivered = False\<rparr>"

definition produce ::
    "runtime \<Rightarrow> string \<Rightarrow> real \<Rightarrow> 'd \<Rightarrow> string option \<Rightarrow> 'd QueueNode
      \<Rightarrow> py_exception + (string \<times> 'd QueueNode)" where
  "produce rt now_repr now d partition_key q =
     (case choose_partition rt q partition_key of
        Inl e \<Rightarrow> Inl e
      | Inr p \<Rightarrow>
          (let message = new_message q now_repr now p d;
               q1 = q\<lparr>partitions := (partitions q)(p := partitions q p @ [message])\<rparr>;
               q2 = (case redis_client q1 of
                       None \<Rightarrow> q1
                     | Some store \<Rightarrow>
                         q1\<lparr>redis_client := Some (store(''message:'' @ message_id message \<mapsto> message)),
                            persisted := persisted q1 + 1\<rparr>)
           in Inr (message_id message, q2\<lparr>produced := produced q2 + 1\<rparr>)))"

text \<open>
  One turn of the loop of \<^verbatim>\<open>consume\<close>: \<open>now\<close> is the reading of \<^verbatim>\<open>time.time()\<close> in the
  loop test and \<open>start_time\<close> the one taken on entry. When the partition has a message
  it is popped, its \<^verbatim>\<open>attempts\<close> incremented, and it is stored in \<^verbatim>\<open>pending_acks\<close>; no
  time of delivery is stored anywhere. Otherwise the coroutine sleeps and other tasks run
  before the next turn.
\<close>

definition ack_key :: "string \<Rightarrow> string \<Rightarrow> string" where
  "ack_key consumer_id mid = consumer_id @ '':'' @ mid"

definition consume_turn ::
    "runtime \<Rightarrow> real \<Rightarrow> real \<Rightarrow> real \<Rightarrow> int \<Rightarrow> string \<Rightarrow> 'd QueueNode
      \<Rightarrow> 'd Message option \<times> 'd QueueNode" where
  "consume_turn rt now start_time timeout p consumer_id q =
     (if float_sub rt now start_time < timeout then
        (case partitions q p of
           [] \<Rightarrow> (None, q)
         | m # rest \<Rightarrow>
             (let message = m\<lparr>attempts := attempts m + 1\<rparr>
              in (Some message,
                  q\<lparr>partitions := (partitions q)(p := rest),
                    pending_acks := dict_set (pending_acks q)
                                      (ack_key consumer_id (message_id message)) message,
                    consumed := consumed q + 1\<rparr>)))
      else (None, q))"

text \<open>
  \<^verbatim>\<open>acknowledge\<close>. The flag \<^verbatim>\<open>delivered\<close> is set on the message object, which then
  leaves the node's state.
\<close>

definition acknowledge :: "string \<Rightarrow> string \<Rightarrow> 'd QueueNode \<Rightarrow> bool \<times> 'd QueueNode" where
  "acknowledge consumer_id mid q =
     (case map_of (pending_acks q) (ack_key consumer_id mid) of
        None \<Rightarrow> (False, q)
      | Some message \<Rightarrow>
          (True,
           q\<lparr>pending_acks := dict_del (pending_acks q) (ack_key consumer_id mid),
             redis_client := (case redis_client q of
                                None \<Rightarrow> None
                              | Some store \<Rightarrow> Some (store(''message:'' @ mid := None)))\<rparr>))"

text \<open>
  The pending-ack map of the specification is keyed by the pair of a consumer and a
  message id. In the state of the code the pair \<open>(consumer_id, mid)\<close> is pending when the
  entry filed under its key holds the message whose id is \<open>mid\<close>: \<^verbatim>\<open>consume\<close> files the
  message it delivers under the id of the consumer and the id of that message.
\<close>

definition pair_pending :: "'d QueueNode \<Rightarrow> string \<Rightarrow> string \<Rightarrow> bool" where
  "pair_pending q consumer_id mid \<longleftrightarrow>
     (case map_of (pending_acks q) (ack_key consumer_id mid) of
        None \<Rightarrow> False
      | Some message \<Rightarrow> message_id message = mid)"

text \<open>
  The part of a key before its first colon, and the states all of whose entries were
  filed by consumers whose id holds no colon: the key of such an entry is this part, a
  colon and the id of the message of the entry.
\<close>

definition key_consumer :: "string \<Rightarrow> string" where
  "key_consumer k = takeWhile (\<lambda>x. x \<noteq> CHR '':'') k"

definition plain_consumers :: "'d QueueNode \<Rightarrow> bool" where
  "plain_consumers q \<longleftrightarrow>
     (\<forall>kv \<in> set (pending_acks q). fst kv = ack_key (key_consumer (fst kv)) (message_id (snd kv)))"

text \<open>
  One pass of the loop of \<^verbatim>\<open>_check_redelivery\<close>, before it sleeps 5 seconds: the keys
  whose message has \<^verbatim>\<open>now - message.timestamp > timeout\<close>, with \<^verbatim>\<open>timeout = 30.0\<close>, are
  collected, then each is removed from \<^verbatim>\<open>pending_acks\<close> and its message inserted at the
  front of its partition.
\<close>

definition redelivery_timeout :: real where
  "redelivery_timeout = 30"

definition is_expired :: "runtime \<Rightarrow> real \<Rightarrow> string \<times> 'd Message \<Rightarrow> bool" where
  "is_expired rt now kv \<longleftrightarrow> float_sub rt now (msg_timestamp (snd kv)) > redelivery_timeout"

definition expired_keys :: "runtime \<Rightarrow> real \<Rightarrow> 'd QueueNode \<Rightarrow> string list" where
  "expired_keys rt now q = map fst (filter (is_expired rt now) (pending_acks q))"

definition redeliver :: "'d QueueNode \<Rightarrow> string \<Rightarrow> py_exception + 'd QueueNode" where
  "redeliver q k =
     (case map_of (pending_acks q) k of
        None \<Rightarrow> Inl KeyError
      | Some message \<Rightarrow>
          Inr (q\<lparr>pending_acks := dict_del (pending_acks q) k,
                 partitions := (partitions q)(msg_partition message :=
                                  message # partitions q (msg_partition message)),
                 redelivered := redelivered q + 1\<rparr>))"

fun redeliver_all :: "'d QueueNode \<Rightarrow> string list \<Rightarrow> py_exception + 'd QueueNode" where
  "redeliver_all q [] = Inr q"
| "redeliver_all q (k # ks) =
     (case redeliver q k of Inl e \<Rightarrow> Inl e | Inr q' \<Rightarrow> redeliver_all q' ks)"

definition check_redelivery_pass :: "runtime \<Rightarrow> real \<Rightarrow> 'd QueueNode \<Rightarrow> py_exception + 'd QueueNode" where
  "check_redelivery_pass rt now q = redeliver_all q (expired_keys rt now q)"

text \<open>
  \<^verbatim>\<open>sorted_keys\<close> is recomputed from the ring by every \<^verbatim>\<open>add_node\<close> and
  \<^verbatim>\<open>remove_node\<close>.
\<close>

definition ring_consistent :: "ConsistentHash \<Rightarrow> bool" where
  "ring_consistent ch \<longleftrightarrow> sorted_keys ch = sort (map fst (ring ch))"

text \<open>
  A runtime and a queue node to run the model on. The floats subtracted in the runs
  below are small whole numbers, whose difference is a double, so that the double
  subtraction returns the real difference there.
\<close>

definition rt0 :: runtime where
  "rt0 = \<lparr>md5_int = (\<lambda>s. int (length s)), builtin_hash = (\<lambda>n. - 7), QUEUE_PARTITIONS = 16,
          float_sub = (\<lambda>a b. a - b)\<rparr>"

definition queue0 :: "string QueueNode" where
  "queue0 =
     \<lparr>q_node_id = ''node-1'',
      consistent_hash = \<lparr>virtual_nodes = 150, ring = [(3, ''node-1''), (1, ''node-2'')],
                         sorted_keys = [1, 3]\<rparr>,
      partitions = (\<lambda>p. []), pending_acks = [], redis_client = None,
      produced = 0, consumed = 0, redelivered = 0, persisted = 0\<rparr>"

definition queue1 :: "string QueueNode" where
  "queue1 = queue0\<lparr>pending_acks :=
      [(''c1:m1'', \<lparr>message_id = ''m1'', msg_partition = 0, msg_data = ''x'', msg_timestamp = 0,
                    attempts = 1, delivered = False\<rparr>)]\<rparr>"

definition queue2 :: "string QueueNode" where
  "queue2 = queue0\<lparr>pending_acks :=
      [(''c1:m1'', \<lparr>message_id = ''m1'', msg_partition = 0, msg_data = ''x'', msg_timestamp = 0,
                    attempts = 1, delivered = False\<rparr>),
       (''c1:m2'', \<lparr>message_id = ''m2'', msg_partition = 0, msg_data = ''y'', msg_timestamp = 80,
                    attempts = 1, delivered = False\<rparr>)]\<rparr>"

section \<open>Cache (src/nodes/cache_node.py)\<close>

text \<open>
  The states of \<^verbatim>\<open>CacheState\<close>; \<^verbatim>\<open>EXCLUSIVE\<close> and \<^verbatim>\<open>SHARED\<close> take a prefix here, the
  lock modes have these names already.
\<close>

datatype CacheState = MODIFIED | CACHE_EXCLUSIVE | CACHE_SHARED | INVALID

record 'v CacheLine =
  line_key :: string
  line_value :: 'v
  line_state :: CacheState
  line_timestamp :: real
  access_count :: int
  dirty :: bool

text \<open>The constructor with \<^verbatim>\<open>__post_init__\<close>: a MODIFIED line is dirty.\<close>

definition CacheLine_init :: "string \<Rightarrow> 'v \<Rightarrow> CacheState \<Rightarrow> real \<Rightarrow> int \<Rightarrow> bool \<Rightarrow> 'v CacheLine" where
  "CacheLine_init k v st ts ac d =
     \<lparr>line_key = k, line_value = v, line_state = st, line_timestamp = ts, access_count = ac,
      dirty = (if st = MODIFIED then True else d)\<rparr>"

text \<open>
  \<^verbatim>\<open>LRUCache\<close>: the \<^verbatim>\<open>OrderedDict\<close> is the list of its items, the least recently used
  first and the most recently used last.
\<close>

record 'v LRUCache =
  capacity_bytes :: int
  current_size :: int
  cache :: "(string \<times> 'v CacheLine) list"

definition LRUCache_init :: "int \<Rightarrow> 'v LRUCache" where
  "LRUCache_init capacity_mb =
     \<lparr>capacity_bytes = capacity_mb * 1024 * 1024, current_size = 0, cache = []\<rparr>"

definition estimate_size :: "'v LRUCache \<Rightarrow> int" where
  "estimate_size c = int (length (cache c)) * 1024"

text \<open>\<^verbatim>\<open>_evict_lru\<close>: \<^verbatim>\<open>popitem(last=False)\<close> takes the first item; the key is only logged.\<close>

definition evict_lru :: "'v LRUCache \<Rightarrow> string option \<times> 'v LRUCache" where
  "evict_lru c =
     (case cache c of
        [] \<Rightarrow> (None, c)
      | (key, line) # rest \<Rightarrow> (Some key, c\<lparr>cache := rest\<rparr>))"

text \<open>
  The loop of \<^verbatim>\<open>put\<close>:
  \<^verbatim>\<open>while len(self.cache) > 0 and self._estimate_size() > self.capacity_bytes\<close>.
\<close>

function evict_while :: "'v LRUCache \<Rightarrow> 'v LRUCache" where
  "evict_while c =
     (if 0 < length (cache c) \<and> capacity_bytes c < estimate_size c
      then evict_while (snd (evict_lru c))
      else c)"
  by pat_completeness auto
termination
  by (relation "measure (\<lambda>c. length (cache c))")
     (auto simp: evict_lru_def split: list.splits)

declare evict_while.simps [simp del]

definition lru_get :: "string \<Rightarrow> 'v LRUCache \<Rightarrow> 'v CacheLine option \<times> 'v LRUCache" where
  "lru_get key c =
     (case map_of (cache c) key of
        None \<Rightarrow> (None, c)
      | Some line \<Rightarrow>
          (let line' = line\<lparr>access_count := access_count line + 1\<rparr>
           in (Some line', c\<lparr>cache := dict_del (cache c) key @ [(key, line')]\<rparr>)))"

definition lru_put :: "string \<Rightarrow> 'v CacheLine \<Rightarrow> 'v LRUCache \<Rightarrow> 'v LRUCache" where
  "lru_put key line c = evict_while (c\<lparr>cache := dict_del (cache c) key @ [(key, line)]\<rparr>)"

definition lru_remove :: "string \<Rightarrow> 'v LRUCache \<Rightarrow> 'v LRUCache" where
  "lru_remove key c = c\<lparr>cache := dict_del (cache c) key\<rparr>"

text \<open>
  The commands that \<^verbatim>\<open>CacheNode\<close> hands to \<^verbatim>\<open>raft.submit_command\<close>: the operations
  \<^verbatim>\<open>write\<close> (key, value, node), \<^verbatim>\<open>invalidate\<close> (key, source node) and \<^verbatim>\<open>register\<close>
  (key, node). A write-back is a \<^verbatim>\<open>write\<close> command: \<^verbatim>\<open>_write_back\<close> builds one from the key
  and the value of the line.
\<close>

datatype 'v cache_command =
    WriteOp string 'v string
  | InvalidateOp string string
  | RegisterOp string string

text \<open>
  The state of a \<^verbatim>\<open>CacheNode\<close>. \<open>is_leader\<close> is the answer of \<^verbatim>\<open>raft.is_leader()\<close> and
  \<open>submitted\<close> the commands this node has proposed: \<^verbatim>\<open>submit_command\<close> appends the command to
  the leader's log and refuses it on any other node. Their later commitment and
  application are not part of these functions. \<open>state_machine\<close> is \<^verbatim>\<open>raft.state_machine\<close>.
\<close>

record 'v CacheNode =
  c_node_id :: string
  lru :: "'v LRUCache"
  key_locations :: "string \<rightharpoonup> string set"
  is_leader :: bool
  submitted :: "'v cache_command list"
  state_machine :: "string \<rightharpoonup> 'v"
  hits :: int
  misses :: int
  invalidations :: int
  writebacks :: int
  evictions :: int

definition submit_command :: "'v cache_command \<Rightarrow> 'v CacheNode \<Rightarrow> 'v CacheNode" where
  "submit_command cmd n = (if is_leader n then n\<lparr>submitted := submitted n @ [cmd]\<rparr> else n)"

definition write_back :: "string \<Rightarrow> 'v \<Rightarrow> 'v CacheNode \<Rightarrow> 'v CacheNode" where
  "write_back key v n =
     (if is_leader n then submit_command (WriteOp key v (c_node_id n)) n else n)"

definition register_location :: "string \<Rightarrow> 'v CacheNode \<Rightarrow> 'v CacheNode" where
  "register_location key n =
     (if is_leader n then submit_command (RegisterOp key (c_node_id n)) n else n)"

definition invalidate_others :: "string \<Rightarrow> 'v CacheNode \<Rightarrow> 'v CacheNode" where
  "invalidate_others key n =
     (case key_locations n key of
        None \<Rightarrow> n
      | Some nodes \<Rightarrow>
          if nodes - {c_node_id n} = {} then n
          else if is_leader n then submit_command (InvalidateOp key (c_node_id n)) n
          else n)"

definition check_sharers :: "string \<Rightarrow> 'v CacheNode \<Rightarrow> bool" where
  "check_sharers key n =
     (case key_locations n key of
        None \<Rightarrow> False
      | Some nodes \<Rightarrow> nodes - {c_node_id n} \<noteq> {})"

text \<open>\<^verbatim>\<open>CacheNode.write\<close>; \<open>now\<close> is the reading of \<^verbatim>\<open>time.time()\<close> for the new line.\<close>

definition cache_write :: "string \<Rightarrow> 'v \<Rightarrow> real \<Rightarrow> 'v CacheNode \<Rightarrow> bool \<times> 'v CacheNode" where
  "cache_write key v now n =
     (if \<not> is_leader n then (False, n)
      else
        (let n1 = n\<lparr>lru := snd (lru_get key (lru n))\<rparr>;
             n2 = invalidate_others key n1;
             new_line = CacheLine_init key v MODIFIED now 0 True;
             n3 = n2\<lparr>lru := lru_put key new_line (lru n2)\<rparr>;
             n4 = submit_command (WriteOp key v (c_node_id n3)) n3
         in (True, register_location key n4)))"

text \<open>\<^verbatim>\<open>CacheNode.read\<close>: a hit returns the value; a miss on the leader fills the line from memory.\<close>

definition cache_read :: "string \<Rightarrow> real \<Rightarrow> 'v CacheNode \<Rightarrow> 'v option \<times> 'v CacheNode" where
  "cache_read key now n =
     (let (found, c1) = lru_get key (lru n);
          n1 = n\<lparr>lru := c1\<rparr>;
          hit = (case found of None \<Rightarrow> False | Some line \<Rightarrow> line_state line \<noteq> INVALID)
      in if hit then (map_option line_value found, n1\<lparr>hits := hits n1 + 1\<rparr>)
         else
           (let n2 = n1\<lparr>misses := misses n1 + 1\<rparr>
            in if is_leader n2 then
                 (case state_machine n2 key of
                    None \<Rightarrow> (None, n2)
                  | Some v \<Rightarrow>
                      (let st = (if check_sharers key n2 then CACHE_SHARED else CACHE_EXCLUSIVE);
                           new_line = CacheLine_init key v st now 0 False;
                           n3 = n2\<lparr>lru := lru_put key new_line (lru n2)\<rparr>
                       in (Some v, register_location key n3)))
               else (None, n2)))"

text \<open>
  \<^verbatim>\<open>CacheNode.invalidate\<close>, the other path that discards a line: it writes a MODIFIED line back
  before it removes it.
\<close>

definition cache_invalidate :: "string \<Rightarrow> 'v CacheNode \<Rightarrow> bool \<times> 'v CacheNode" where
  "cache_invalidate key n =
     (let (found, c1) = lru_get key (lru n);
          n1 = n\<lparr>lru := c1\<rparr>
      in case found of
           None \<Rightarrow> (False, n1)
         | Some line \<Rightarrow>
             (let n2 = (if line_state line = MODIFIED
                        then (let n' = write_back key (line_value line) n1
                              in n'\<lparr>writebacks := writebacks n' + 1\<rparr>)
                        else n1);
                  n3 = n2\<lparr>lru := lru_remove key (lru n2)\<rparr>
              in (True, n3\<lparr>invalidations := invalidations n3 + 1\<rparr>)))"

text \<open>
  A leader whose cache of 1 MiB (1024 lines of 1 KiB) is full; its least recently used
  line, of key \<open>k\<close>, is MODIFIED.
\<close>

definition full_lines :: "(string \<times> string CacheLine) list" where
  "full_lines =
     (''k'', CacheLine_init ''k'' ''dirty'' MODIFIED 0 0 True) #
     map (\<lambda>i. (replicate (i + 2) (CHR ''k''),
               CacheLine_init (replicate (i + 2) (CHR ''k'')) ''clean'' CACHE_EXCLUSIVE 0 0 False))
       [0..<1023]"

definition cache_node0 :: "string CacheNode" where
  "cache_node0 =
     \<lparr>c_node_id = ''node-1'',
      lru = (LRUCache_init 1)\<lparr>cache := full_lines\<rparr>,
      key_locations = Map.empty, is_leader = True, submitted = [], state_machine = Map.empty,
      hits = 0, misses = 0, invalidations = 0, writebacks = 0, evictions = 0\<rparr>"

section \<open>Failure detector (src/communication/failure_detector.py)\<close>

text \<open>
  A Python float that is a real number or \<^verbatim>\<open>float('inf')\<close>. The arithmetic of \<^verbatim>\<open>phi\<close> is
  written over the reals; rounding is not modelled.
\<close>

datatype phi_value = Finite real | Infinity

fun phi_less :: "phi_value \<Rightarrow> real \<Rightarrow> bool" where
  "phi_less (Finite x) t = (x < t)"
| "phi_less Infinity t = False"

record FailureDetector =
  threshold :: real
  window_size :: nat
  min_std_dev :: real
  heartbeat_history :: "string \<rightharpoonup> real list"
  fd_last_heartbeat :: "string \<rightharpoonup> real"
  suspected_nodes :: "string set"

text \<open>\<^verbatim>\<open>FailureDetector()\<close>, as \<^verbatim>\<open>BaseNode\<close> builds it: the defaults 8.0, 100 and 0.5.\<close>

definition FailureDetector_init :: FailureDetector where
  "FailureDetector_init =
     \<lparr>threshold = 8, window_size = 100, min_std_dev = 1 / 2,
      heartbeat_history = Map.empty, fd_last_heartbeat = Map.empty, suspected_nodes = {}\<rparr>"

text \<open>\<^verbatim>\<open>append\<close> on a \<^verbatim>\<open>deque(maxlen=n)\<close> drops from the left what exceeds \<open>n\<close>.\<close>

definition deque_append :: "nat \<Rightarrow> real list \<Rightarrow> real \<Rightarrow> real list" where
  "deque_append maxlen xs x = drop (length (xs @ [x]) - maxlen) (xs @ [x])"

definition heartbeat :: "real \<Rightarrow> string \<Rightarrow> FailureDetector \<Rightarrow> FailureDetector" where
  "heartbeat now node fd =
     (let history = (case heartbeat_history fd node of None \<Rightarrow> [] | Some h \<Rightarrow> h);
          history' = (case fd_last_heartbeat fd node of
                        None \<Rightarrow> history
                      | Some prev \<Rightarrow> deque_append (window_size fd) history (now - prev))
      in fd\<lparr>heartbeat_history := (heartbeat_history fd)(node \<mapsto> history'),
            fd_last_heartbeat := (fd_last_heartbeat fd)(node \<mapsto> now),
            suspected_nodes := suspected_nodes fd - {node}\<rparr>)"

definition cdf :: "real \<Rightarrow> real \<Rightarrow> real \<Rightarrow> real" where
  "cdf x mean std_dev =
     (let z = (x - mean) / std_dev;
          t = 1 / (1 + 0.2316419 * \<bar>z\<bar>);
          d = 0.3989423 * exp (- z * z / 2);
          p = d * t * (0.3193815 + t * (- 0.3565638 + t * (1.781478 + t * (- 1.821256 + t * 1.330274))))
      in if 0 < z then 1 - p else p)"

text \<open>
  \<^verbatim>\<open>phi\<close>; \<open>now\<close> is the reading of \<^verbatim>\<open>time.time()\<close>. The division by a zero deviation
  and \<^verbatim>\<open>math.log10\<close> of a value that is not positive raise.
\<close>

definition phi :: "real \<Rightarrow> string \<Rightarrow> FailureDetector \<Rightarrow> py_exception + phi_value" where
  "phi now node fd =
     (case fd_last_heartbeat fd node of
        None \<Rightarrow> Inr Infinity
      | Some prev \<Rightarrow>
          (case heartbeat_history fd node of
             None \<Rightarrow> Inr (Finite 0)
           | Some intervals \<Rightarrow>
               if length intervals < 2 then Inr (Finite 0)
               else
                 (let time_since_last = now - prev;
                      mean = sum_list intervals / real (length intervals);
                      variance = sum_list (map (\<lambda>x. (x - mean)\<^sup>2) intervals) / real (length intervals);
                      std_dev = max (sqrt variance) (min_std_dev fd)
                  in if std_dev = 0 then Inl ZeroDivisionError
                     else if cdf time_since_last mean std_dev \<le> 0 then Inl ValueError
                     else Inr (Finite (- log 10 (cdf time_since_last mean std_dev))))))"

definition is_available :: "real \<Rightarrow> string \<Rightarrow> FailureDetector \<Rightarrow> py_exception + (bool \<times> FailureDetector)" where
  "is_available now node fd =
     (case phi now node fd of
        Inl e \<Rightarrow> Inl e
      | Inr phi_value \<Rightarrow>
          (let available = phi_less phi_value (threshold fd)
           in Inr (available,
                   if \<not> available \<and> node \<notin> suspected_nodes fd
                   then fd\<lparr>suspected_nodes := insert node (suspected_nodes fd)\<rparr>
                   else fd)))"

section \<open>Lock manager: proofs\<close>

lemma exclusive_single_init: "exclusive_single LockManager_init"
  by (simp add: exclusive_single_def LockManager_init_def)

lemma exclusive_single_update:
  assumes "exclusive_single m"
    and "finite (holders l)"
    and "lock_type l = EXCLUSIVE \<Longrightarrow> card (holders l) \<le> 1"
    and "locks m' = (locks m)(rid \<mapsto> l)"
  shows "exclusive_single m'"
  using assms by (auto simp: exclusive_single_def)

lemma exclusive_single_acquire:
  assumes "exclusive_single m"
  shows "exclusive_single (apply_acquire rid lt cid ts m)"
proof -
  define lock where "lock = (case locks m rid of None \<Rightarrow> new_lock rid lt ts | Some l \<Rightarrow> l)"
  have fin: "finite (holders lock)"
    using assms by (auto simp: lock_def new_lock_def exclusive_single_def split: option.splits)
  have excl: "lock_type lock = EXCLUSIVE \<Longrightarrow> card (holders lock) \<le> 1"
    using assms by (auto simp: lock_def new_lock_def exclusive_single_def split: option.splits)
  show ?thesis
  proof (cases "can_grant lock lt")
    case True
    have granted: "lt = EXCLUSIVE \<Longrightarrow> holders lock = {}"
      using True by (auto simp: can_grant_def split: if_splits)
    show ?thesis
      using assms True fin granted
      by (auto simp: apply_acquire_def Let_def lock_def[symmetric] exclusive_single_def)
  next
    case False
    show ?thesis
      using assms False fin excl
      by (auto simp: apply_acquire_def Let_def lock_def[symmetric] exclusive_single_def)
  qed
qed

lemma exclusive_single_release:
  assumes "exclusive_single m"
  shows "exclusive_single (apply_release rid cid m)"
proof (cases "locks m rid")
  case None
  then show ?thesis using assms by (simp add: apply_release_def)
next
  case (Some lock)
  define hs where "hs = holders lock - {cid}"
  define m1 where "m1 = m\<lparr>locks := (locks m)(rid \<mapsto> lock\<lparr>holders := hs\<rparr>),
      client_locks := (case client_locks m cid of
                         None \<Rightarrow> client_locks m
                       | Some rs \<Rightarrow> (client_locks m)(cid \<mapsto> rs - {rid})),
      wait_for_graph := remove_edges (wait_for_graph m) cid hs\<rparr>"
  have fin: "finite (holders lock)"
    using assms Some by (auto simp: exclusive_single_def)
  have excl: "lock_type lock = EXCLUSIVE \<Longrightarrow> card (holders lock) \<le> 1"
    using assms Some by (auto simp: exclusive_single_def)
  have card_hs: "card hs \<le> card (holders lock)"
    unfolding hs_def using fin by (simp add: card_Diff1_le)
  have fin_hs: "finite hs"
    unfolding hs_def using fin by simp
  have excl_hs: "lock_type lock = EXCLUSIVE \<Longrightarrow> card hs \<le> 1"
    using excl card_hs by simp
  have inv1: "exclusive_single m1"
    by (rule exclusive_single_update[OF assms, where l = "lock\<lparr>holders := hs\<rparr>" and rid = rid])
       (use fin_hs excl_hs in \<open>simp_all add: m1_def\<close>)
  have inv2: "exclusive_single (m1\<lparr>locks := (locks m1)(rid \<mapsto> lock\<lparr>holders := hs, waiters := ws\<rparr>)\<rparr>)" for ws
    by (rule exclusive_single_update[OF assms, where l = "lock\<lparr>holders := hs, waiters := ws\<rparr>" and rid = rid])
       (use fin_hs excl_hs in \<open>simp_all add: m1_def\<close>)
  show ?thesis
  proof (cases "hs = {} \<and> waiters lock \<noteq> []")
    case False
    then have "apply_release rid cid m = m1"
      using Some by (auto simp: apply_release_def Let_def m1_def hs_def)
    then show ?thesis using inv1 by simp
  next
    case True
    show ?thesis
    proof (cases "sort_key req_timestamp (waiters lock)")
      case Nil
      then have "apply_release rid cid m = m1"
        using Some True by (auto simp: apply_release_def Let_def m1_def hs_def)
      then show ?thesis using inv1 by simp
    next
      case (Cons w rest)
      have "apply_release rid cid m =
          apply_acquire (req_resource_id w) (req_lock_type w) (req_client_id w) (req_timestamp w)
            (m1\<lparr>locks := (locks m1)(rid \<mapsto> lock\<lparr>holders := hs, waiters := rest\<rparr>)\<rparr>)"
        using Some True Cons
        by (simp add: apply_release_def Let_def m1_def hs_def)
      then show ?thesis using exclusive_single_acquire[OF inv2] by simp
    qed
  qed
qed

lemma exclusive_single_step:
  "exclusive_single m \<Longrightarrow> exclusive_single (apply_lock_operation m c)"
  by (cases c) (simp_all add: exclusive_single_acquire exclusive_single_release)

lemma exclusive_single_foldl:
  "exclusive_single m \<Longrightarrow> exclusive_single (foldl apply_lock_operation m cmds)"
  by (induction cmds arbitrary: m) (simp_all add: exclusive_single_step)

lemmas lock_eval = apply_commands_def LockManager_init_def apply_acquire_def apply_release_def
  can_grant_def new_lock_def add_edges_def remove_edges_def Let_def

lemma waiters_own_resource_init: "waiters_own_resource LockManager_init"
  by (simp add: waiters_own_resource_def LockManager_init_def)

lemma waiters_own_resource_acquire:
  assumes "waiters_own_resource m"
  shows "waiters_own_resource (apply_acquire rid lt cid ts m)"
  using assms
  by (auto simp: waiters_own_resource_def apply_acquire_def Let_def new_lock_def
           split: option.splits if_splits)

lemma waiters_own_resource_release:
  assumes "waiters_own_resource m"
  shows "waiters_own_resource (apply_release rid cid m)"
proof (cases "locks m rid")
  case None
  then show ?thesis using assms by (simp add: apply_release_def)
next
  case (Some lock)
  have own: "\<forall>w \<in> set (waiters lock). req_resource_id w = rid"
    using assms Some by (auto simp: waiters_own_resource_def)
  define hs where "hs = holders lock - {cid}"
  define m1 where "m1 = m\<lparr>locks := (locks m)(rid \<mapsto> lock\<lparr>holders := hs\<rparr>),
      client_locks := (case client_locks m cid of
                         None \<Rightarrow> client_locks m
                       | Some rs \<Rightarrow> (client_locks m)(cid \<mapsto> rs - {rid})),
      wait_for_graph := remove_edges (wait_for_graph m) cid hs\<rparr>"
  have inv1: "waiters_own_resource m1"
    using assms own by (auto simp: m1_def waiters_own_resource_def)
  show ?thesis
  proof (cases "hs = {} \<and> waiters lock \<noteq> []")
    case False
    then have "apply_release rid cid m = m1"
      using Some by (auto simp: apply_release_def Let_def m1_def hs_def)
    then show ?thesis using inv1 by simp
  next
    case True
    show ?thesis
    proof (cases "sort_key req_timestamp (waiters lock)")
      case Nil
      then have "apply_release rid cid m = m1"
        using Some True by (auto simp: apply_release_def Let_def m1_def hs_def)
      then show ?thesis using inv1 by simp
    next
      case (Cons w rest)
      have "set rest \<subseteq> set (waiters lock)"
        using Cons by (metis set_sort set_subset_Cons)
      then have inv2: "waiters_own_resource
          (m1\<lparr>locks := (locks m1)(rid \<mapsto> lock\<lparr>holders := hs, waiters := rest\<rparr>)\<rparr>)"
        using assms own by (auto simp: m1_def waiters_own_resource_def)
      have "apply_release rid cid m =
          apply_acquire (req_resource_id w) (req_lock_type w) (req_client_id w) (req_timestamp w)
            (m1\<lparr>locks := (locks m1)(rid \<mapsto> lock\<lparr>holders := hs, waiters := rest\<rparr>)\<rparr>)"
        using Some True Cons
        by (simp add: apply_release_def Let_def m1_def hs_def)
      then show ?thesis using waiters_own_resource_acquire[OF inv2] by simp
    qed
  qed
qed

lemma waiters_own_resource_step:
  "waiters_own_resource m \<Longrightarrow> waiters_own_resource (apply_lock_operation m c)"
  by (cases c) (simp_all add: waiters_own_resource_acquire waiters_own_resource_release)

lemma waiters_own_resource_foldl:
  "waiters_own_resource m \<Longrightarrow> waiters_own_resource (foldl apply_lock_operation m cmds)"
  by (induction cmds arbitrary: m) (simp_all add: waiters_own_resource_step)

lemma waiters_own_resource_reachable: "waiters_own_resource (apply_commands cmds)"
  unfolding apply_commands_def
  by (rule waiters_own_resource_foldl[OF waiters_own_resource_init])

lemma apply_release_entry:
  assumes "locks m r = Some l" and "\<forall>w \<in> set (waiters l). req_resource_id w = r"
  shows "locks (apply_release r c m) r = Some (released_lock l c)"
proof (cases "holders l - {c} = {} \<and> waiters l \<noteq> []")
  case False
  then show ?thesis
    using assms by (auto simp: apply_release_def released_lock_def Let_def)
next
  case True
  show ?thesis
  proof (cases "sort_key req_timestamp (waiters l)")
    case Nil
    then show ?thesis
      using assms True by (auto simp: apply_release_def released_lock_def Let_def)
  next
    case (Cons w rest)
    have "w \<in> set (waiters l)"
      using Cons by (metis list.set_intros(1) set_sort)
    then have own: "req_resource_id w = r" using assms(2) by blast
    from True have hs: "holders l - {c} = {}" and ws: "waiters l \<noteq> []" by simp_all
    show ?thesis
      using assms(1) Cons
      by (simp add: apply_release_def released_lock_def Let_def apply_acquire_def can_grant_def
            own hs ws)
  qed
qed

subsection \<open>C3: lock safety\<close>

text \<open>
  Claim C3. In every lock table reached from the empty table by applying any sequence
  of acquire and release commands (\<^const>\<open>apply_commands\<close>), a lock whose mode is
  EXCLUSIVE has at most one holder: its holder set is finite, of cardinality at most 1,
  and any two of its holders are the same client.
\<close>

theorem lock_safety:
  assumes "locks (apply_commands cmds) r = Some l" and "lock_type l = EXCLUSIVE"
  shows "finite (holders l) \<and> card (holders l) \<le> 1 \<and>
         (\<forall>c c'. c \<in> holders l \<longrightarrow> c' \<in> holders l \<longrightarrow> c' = c)"
proof -
  have "exclusive_single (apply_commands cmds)"
    unfolding apply_commands_def
    by (rule exclusive_single_foldl[OF exclusive_single_init])
  with assms have fin: "finite (holders l)" and le: "card (holders l) \<le> 1"
    by (auto simp: exclusive_single_def)
  have "c' = c" if "c \<in> holders l" "c' \<in> holders l" for c c'
    using fin le that by (metis card_le_Suc0_iff_eq One_nat_def)
  with fin le show ?thesis by blast
qed

text \<open>
  Witness for C3: after an exclusive acquire by \<open>a\<close> and a shared acquire by \<open>b\<close>, the
  lock of \<open>r\<close> is EXCLUSIVE, held by \<open>a\<close> alone (\<open>b\<close> waits).
\<close>

theorem lock_safety_witness:
  "\<exists>l. locks (apply_commands [Acquire ''r'' EXCLUSIVE ''a'' 1, Acquire ''r'' SHARED ''b'' 2]) ''r'' = Some l
      \<and> lock_type l = EXCLUSIVE \<and> holders l = {''a''} \<and> card (holders l) \<le> 1"
proof -
  let ?l = "\<lparr>resource_id = ''r'', lock_type = EXCLUSIVE, holders = {''a''},
      waiters = [\<lparr>req_resource_id = ''r'', req_lock_type = SHARED, req_client_id = ''b'', req_timestamp = 2\<rparr>],
      acquired_at = 1\<rparr>"
  have eq: "locks (apply_commands [Acquire ''r'' EXCLUSIVE ''a'' 1, Acquire ''r'' SHARED ''b'' 2]) ''r'' = Some ?l"
    by (simp add: lock_eval)
  have ty: "lock_type ?l = EXCLUSIVE" by simp
  from lock_safety[OF eq ty] have "card (holders ?l) \<le> 1" by blast
  with eq ty show ?thesis by simp
qed

subsection \<open>C4: a shared request and the waiting writers\<close>

text \<open>
  The failing input of C4. \<open>a\<close> holds \<open>r\<close> in SHARED mode (time 1), the EXCLUSIVE
  request of \<open>w\<close> is queued (time 2), and the later SHARED request of \<open>b\<close> (time 3) is
  granted at once: \<open>b\<close> is a holder while \<open>w\<close>, enqueued earlier, still waits.
\<close>

lemma shared_request_overtakes_writer:
  "\<exists>l. locks (apply_commands [Acquire ''r'' SHARED ''a'' 1, Acquire ''r'' EXCLUSIVE ''w'' 2,
         Acquire ''r'' SHARED ''b'' 3]) ''r'' = Some l
      \<and> ''b'' \<in> holders l \<and> map req_client_id (waiters l) = [''w'']
      \<and> map req_lock_type (waiters l) = [EXCLUSIVE] \<and> map req_timestamp (waiters l) = [2]"
  by (simp add: lock_eval)

text \<open>
  Claim C4, on the code. The claim asks that a SHARED request on a resource held in
  SHARED mode join the holders only when no EXCLUSIVE waiter is queued before it. The
  code does not do so: when the resource has an entry with at least one holder,
  \<^verbatim>\<open>_apply_acquire\<close> looks at the two modes only and never at the queue. A SHARED
  request on a lock in SHARED mode is always added to the holders, and the waiter queue
  is left as it is, whatever it contains, a waiting EXCLUSIVE request included; every
  other request is appended to the queue, and the holders stay. The queue itself is
  served in the order of the timestamps (\<^const>\<open>released_lock\<close>); it is this grant that
  passes it by.
\<close>

theorem acquire_with_holders:
  assumes "locks m r = Some l" and "holders l \<noteq> {}"
  shows "locks (apply_acquire r lt c ts m) r =
     Some (if lt = SHARED \<and> lock_type l = SHARED
           then l\<lparr>holders := insert c (holders l), lock_type := SHARED\<rparr>
           else l\<lparr>waiters := waiters l @
                  [\<lparr>req_resource_id = r, req_lock_type = lt, req_client_id = c, req_timestamp = ts\<rparr>]\<rparr>)"
  using assms by (simp add: apply_acquire_def can_grant_def)

text \<open>
  The theorem at the failing input of C4: the state before the request of \<open>b\<close>, with the
  EXCLUSIVE request of \<open>w\<close> queued, and the request of \<open>b\<close> granted.
\<close>

theorem acquire_with_holders_witness:
  "\<exists>l. locks (apply_commands [Acquire ''r'' SHARED ''a'' 1, Acquire ''r'' EXCLUSIVE ''w'' 2]) ''r'' = Some l
     \<and> holders l \<noteq> {} \<and> map req_lock_type (waiters l) = [EXCLUSIVE]
     \<and> locks (apply_acquire ''r'' SHARED ''b'' 3
           (apply_commands [Acquire ''r'' SHARED ''a'' 1, Acquire ''r'' EXCLUSIVE ''w'' 2])) ''r''
         = Some (l\<lparr>holders := insert ''b'' (holders l), lock_type := SHARED\<rparr>)"
proof -
  let ?m = "apply_commands [Acquire ''r'' SHARED ''a'' 1, Acquire ''r'' EXCLUSIVE ''w'' 2]"
  let ?l = "\<lparr>resource_id = ''r'', lock_type = SHARED, holders = {''a''},
      waiters = [\<lparr>req_resource_id = ''r'', req_lock_type = EXCLUSIVE, req_client_id = ''w'', req_timestamp = 2\<rparr>],
      acquired_at = 1\<rparr>"
  have eq: "locks ?m ''r'' = Some ?l"
    by (simp add: lock_eval)
  have ne: "holders ?l \<noteq> {}" by simp
  from acquire_with_holders[OF eq ne, of SHARED "''b''" 3]
  have "locks (apply_acquire ''r'' SHARED ''b'' 3 ?m) ''r''
      = Some (?l\<lparr>holders := insert ''b'' (holders ?l), lock_type := SHARED\<rparr>)"
    by simp
  with eq ne show ?thesis by simp
qed

subsection \<open>C5: release\<close>

text \<open>
  Counterexample to C5 as stated. First: \<open>a\<close> holds \<open>r\<close> exclusively, the SHARED
  requests of \<open>b\<close> and \<open>c\<close> are queued; after the release by \<open>a\<close> only \<open>b\<close> holds
  the lock and \<open>c\<close> still waits, although \<open>b\<close> and \<open>c\<close> are a SHARED prefix. Second:
  after an acquire and a release by \<open>a\<close>, holders and waiters are both empty and the
  entry of \<open>r\<close> is still in the table.
\<close>

theorem release_promotion_counterexample:
  "(\<exists>l. locks (apply_commands [Acquire ''r'' EXCLUSIVE ''a'' 1, Acquire ''r'' SHARED ''b'' 2,
           Acquire ''r'' SHARED ''c'' 3, Release ''r'' ''a'']) ''r'' = Some l
        \<and> holders l = {''b''} \<and> lock_type l = SHARED
        \<and> map req_client_id (waiters l) = [''c''] \<and> map req_lock_type (waiters l) = [SHARED])
   \<and> (\<exists>l. locks (apply_commands [Acquire ''r'' EXCLUSIVE ''a'' 1, Release ''r'' ''a'']) ''r'' = Some l
        \<and> holders l = {} \<and> waiters l = [])"
  by (simp add: lock_eval)

text \<open>
  Claim C5, amended. In every reachable lock table, releasing \<open>(r, c)\<close> leaves an
  unknown resource unknown, and otherwise leaves the entry of \<open>r\<close> in the table as
  \<^const>\<open>released_lock\<close> describes it: \<open>c\<close> is removed from the holders; if that empties
  the holders and requests are queued, the requests are sorted by timestamp (stably),
  the first one alone is taken from the queue and becomes the only holder, and the mode
  becomes its mode; the other requests stay queued. The entry is never deleted.
\<close>

theorem release_effect:
  "locks (apply_release r c (apply_commands cmds)) r =
     (case locks (apply_commands cmds) r of
        None \<Rightarrow> None
      | Some l \<Rightarrow> Some (released_lock l c))"
proof (cases "locks (apply_commands cmds) r")
  case None
  then show ?thesis by (simp add: apply_release_def)
next
  case (Some l)
  have "\<forall>w \<in> set (waiters l). req_resource_id w = r"
    using waiters_own_resource_reachable[of cmds] Some
    by (auto simp: waiters_own_resource_def)
  from apply_release_entry[OF Some this] Some show ?thesis by simp
qed

text \<open>
  Witness for C5 amended: the first state of the counterexample.
\<close>

theorem release_effect_witness:
  "\<exists>l. locks (apply_commands [Acquire ''r'' EXCLUSIVE ''a'' 1, Acquire ''r'' SHARED ''b'' 2,
           Acquire ''r'' SHARED ''c'' 3]) ''r'' = Some l
     \<and> locks (apply_release ''r'' ''a'' (apply_commands [Acquire ''r'' EXCLUSIVE ''a'' 1,
           Acquire ''r'' SHARED ''b'' 2, Acquire ''r'' SHARED ''c'' 3])) ''r''
        = Some (l\<lparr>holders := {''b''}, lock_type := SHARED,
             waiters := [\<lparr>req_resource_id = ''r'', req_lock_type = SHARED, req_client_id = ''c'', req_timestamp = 3\<rparr>]\<rparr>)"
proof -
  let ?cmds = "[Acquire ''r'' EXCLUSIVE ''a'' 1, Acquire ''r'' SHARED ''b'' 2, Acquire ''r'' SHARED ''c'' 3]"
  let ?l = "\<lparr>resource_id = ''r'', lock_type = EXCLUSIVE, holders = {''a''},
      waiters = [\<lparr>req_resource_id = ''r'', req_lock_type = SHARED, req_client_id = ''b'', req_timestamp = 2\<rparr>,
                 \<lparr>req_resource_id = ''r'', req_lock_type = SHARED, req_client_id = ''c'', req_timestamp = 3\<rparr>],
      acquired_at = 1\<rparr>"
  have eq: "locks (apply_commands ?cmds) ''r'' = Some ?l"
    by (simp add: lock_eval)
  have "locks (apply_release ''r'' ''a'' (apply_commands ?cmds)) ''r'' = Some (released_lock ?l ''a'')"
    using release_effect[of "''r''" "''a''" ?cmds] eq by simp
  then show ?thesis using eq by (simp add: released_lock_def)
qed


section \<open>Raft: proofs\<close>

lemma py_index_in_range:
  "0 \<le> i \<Longrightarrow> i < int (length xs) \<Longrightarrow> py_index xs i = Inr (xs ! nat i)"
  by (simp add: py_index_def)

lemma find_commit_spec:
  assumes "- 1 \<le> commit_index s" and "n < int (length (raft_log s))"
  shows "\<exists>r. find_commit s n = Inr r \<and>
           (case r of
              None \<Rightarrow> (\<forall>k. commit_index s < k \<and> k \<le> n \<longrightarrow> \<not> passes s k)
            | Some m \<Rightarrow> commit_index s < m \<and> m \<le> n \<and> passes s m \<and>
                        (\<forall>k. m < k \<and> k \<le> n \<longrightarrow> \<not> passes s k))"
  using assms
proof (induction s n rule: find_commit.induct)
  case (1 s n)
  show ?case
  proof (cases "commit_index s < n")
    case False
    then show ?thesis by (auto simp: find_commit.simps[of s n])
  next
    case True
    with "1.prems" have rng: "0 \<le> n" "n < int (length (raft_log s))" by simp_all
    then have idx: "py_index (raft_log s) n = Inr (raft_log s ! nat n)"
      by (rule py_index_in_range)
    show ?thesis
    proof (cases "passes s n")
      case True
      with \<open>commit_index s < n\<close> idx show ?thesis
        by (simp add: find_commit.simps[of s n] passes_def)
    next
      case False
      then have np: "\<not> (entry_term (raft_log s ! nat n) = current_term s \<and> quorum s \<le> replication_count s n)"
        by (simp add: passes_def)
      have "n - 1 < int (length (raft_log s))" using rng by simp
      from "1.IH"[OF True idx np "1.prems"(1) this]
      obtain r where r: "find_commit s (n - 1) = Inr r"
        and spec: "(case r of
              None \<Rightarrow> (\<forall>k. commit_index s < k \<and> k \<le> n - 1 \<longrightarrow> \<not> passes s k)
            | Some m \<Rightarrow> commit_index s < m \<and> m \<le> n - 1 \<and> passes s m \<and>
                        (\<forall>k. m < k \<and> k \<le> n - 1 \<longrightarrow> \<not> passes s k))"
        by blast
      have "find_commit s n = find_commit s (n - 1)"
        using True idx np by (auto simp: find_commit.simps[of s n])
      with r have eq: "find_commit s n = Inr r" by simp
      have step: "k \<le> n \<Longrightarrow> k \<le> n - 1 \<or> k = n" for k :: int by arith
      show ?thesis
      proof (cases r)
        case None
        with spec eq False step show ?thesis by auto
      next
        case (Some m)
        with spec eq False step show ?thesis by auto
      qed
    qed
  qed
qed

lemma apply_committed_entries_ok:
  assumes "0 \<le> last_applied s" and "commit_index s < int (length (raft_log s))"
  shows "\<exists>ap. apply_committed_entries s =
           Inr (s\<lparr>last_applied := max (last_applied s) (commit_index s), applied := applied s @ ap\<rparr>)"
  using assms
proof (induction s rule: apply_committed_entries.induct)
  case (1 s)
  show ?case
  proof (cases "last_applied s < commit_index s")
    case False
    then have "max (last_applied s) (commit_index s) = last_applied s" by simp
    with False show ?thesis
      by (auto simp: apply_committed_entries.simps[of s] intro: exI[of _ "[]"])
  next
    case True
    with "1.prems" have idx: "py_index (raft_log s) (last_applied s + 1)
        = Inr (raft_log s ! nat (last_applied s + 1))"
      by (intro py_index_in_range) simp_all
    let ?s1 = "s\<lparr>last_applied := last_applied s + 1,
        applied := applied s @ [entry_command (raft_log s ! nat (last_applied s + 1))]\<rparr>"
    have "\<exists>ap. apply_committed_entries ?s1 =
           Inr (?s1\<lparr>last_applied := max (last_applied ?s1) (commit_index ?s1), applied := applied ?s1 @ ap\<rparr>)"
      using "1.prems" by (intro "1.IH"[OF True idx]) simp_all
    then obtain ap where ap: "apply_committed_entries ?s1 =
           Inr (?s1\<lparr>last_applied := max (last_applied ?s1) (commit_index ?s1), applied := applied ?s1 @ ap\<rparr>)"
      by blast
    have mx: "max (last_applied s + 1) (commit_index s) = max (last_applied s) (commit_index s)"
      using True by simp
    have "apply_committed_entries s = apply_committed_entries ?s1"
      using True idx by (simp add: apply_committed_entries.simps[of s])
    with ap mx show ?thesis by auto
  qed
qed

lemma quorum_is_majority:
  "cluster_size s div 2 + 1 \<le> k \<longleftrightarrow> cluster_size s < 2 * k"
  by arith

lemma replication_count_card:
  assumes "distinct (cluster_nodes s)"
  shows "replication_count s n = int (holders_of_entry s n)"
proof -
  have "{p \<in> set (cluster_nodes s). n \<le> (case match_index s p of None \<Rightarrow> 0 | Some i \<Rightarrow> i)}
      = {p. n \<le> (case match_index s p of None \<Rightarrow> 0 | Some i \<Rightarrow> i)} \<inter> set (cluster_nodes s)"
    by auto
  then show ?thesis
    using distinct_length_filter[OF assms]
    by (simp add: replication_count_def holders_of_entry_def)
qed

lemma quorum_cluster_size:
  assumes "distinct (cluster_nodes s)"
  shows "quorum s = int (cluster_size s div 2 + 1)"
proof -
  have "cluster_size s = length (cluster_nodes s) + 1"
    using assms by (simp add: cluster_size_def distinct_card)
  then show ?thesis
    by (simp add: quorum_def zdiv_int)
qed

lemma committable_passes:
  assumes "distinct (cluster_nodes s)"
  shows "committable s n \<longleftrightarrow>
     commit_index s < n \<and> n \<le> int (length (raft_log s)) - 1 \<and> passes s n"
proof -
  have "quorum s \<le> replication_count s n
      \<longleftrightarrow> cluster_size s div 2 + 1 \<le> holders_of_entry s n"
    unfolding quorum_cluster_size[OF assms] replication_count_card[OF assms]
    by (rule of_nat_le_iff)
  then show ?thesis
    by (auto simp: committable_def passes_def)
qed

lemma update_commit_index_leader:
  assumes "state s = LEADER" and "distinct (cluster_nodes s)"
    and "- 1 \<le> commit_index s" and "0 \<le> last_applied s"
  shows "\<exists>ci la ap. update_commit_index s = Inr (s\<lparr>commit_index := ci, last_applied := la, applied := ap\<rparr>) \<and>
       (\<forall>n. committable s n \<longrightarrow> n \<le> ci) \<and>
       (if \<exists>n. committable s n then committable s ci else ci = commit_index s)"
proof -
  have "int (length (raft_log s)) - 1 < int (length (raft_log s))" by simp
  from find_commit_spec[OF assms(3) this]
  obtain r where r: "find_commit s (int (length (raft_log s)) - 1) = Inr r"
    and spec: "(case r of
              None \<Rightarrow> (\<forall>k. commit_index s < k \<and> k \<le> int (length (raft_log s)) - 1 \<longrightarrow> \<not> passes s k)
            | Some m \<Rightarrow> commit_index s < m \<and> m \<le> int (length (raft_log s)) - 1 \<and> passes s m \<and>
                        (\<forall>k. m < k \<and> k \<le> int (length (raft_log s)) - 1 \<longrightarrow> \<not> passes s k))"
    by blast
  note cp = committable_passes[OF assms(2)]
  show ?thesis
  proof (cases r)
    case None
    then have none: "\<not> committable s n" for n
      using spec by (auto simp: cp)
    have "update_commit_index s = Inr (s\<lparr>commit_index := commit_index s,
        last_applied := last_applied s, applied := applied s\<rparr>)"
      using assms(1) r None by (simp add: update_commit_index_def)
    with none show ?thesis
      by (intro exI[of _ "commit_index s"] exI[of _ "last_applied s"] exI[of _ "applied s"]) simp
  next
    case (Some m)
    with spec have m: "commit_index s < m" "m \<le> int (length (raft_log s)) - 1" "passes s m"
      and top: "\<And>k. m < k \<Longrightarrow> k \<le> int (length (raft_log s)) - 1 \<Longrightarrow> \<not> passes s k"
      by auto
    have cm: "committable s m" using m by (simp add: cp)
    have le: "n \<le> m" if "committable s n" for n
    proof (rule ccontr)
      assume "\<not> n \<le> m"
      then have "m < n" by simp
      moreover from that have "n \<le> int (length (raft_log s)) - 1" and "passes s n"
        by (simp_all add: cp)
      ultimately show False using top by blast
    qed
    let ?s1 = "s\<lparr>commit_index := m\<rparr>"
    have "\<exists>ap. apply_committed_entries ?s1 =
           Inr (?s1\<lparr>last_applied := max (last_applied ?s1) (commit_index ?s1), applied := applied ?s1 @ ap\<rparr>)"
      using assms(4) m by (intro apply_committed_entries_ok) simp_all
    then obtain ap where "apply_committed_entries ?s1 =
           Inr (s\<lparr>commit_index := m, last_applied := max (last_applied s) m, applied := applied s @ ap\<rparr>)"
      by auto
    then have "update_commit_index s =
         Inr (s\<lparr>commit_index := m, last_applied := max (last_applied s) m, applied := applied s @ ap\<rparr>)"
      using assms(1) r Some by (simp add: update_commit_index_def)
    with cm le show ?thesis
      by (intro exI[of _ m] exI[of _ "max (last_applied s) m"] exI[of _ "applied s @ ap"]) auto
  qed
qed


lemma step_down_commit_index: "commit_index (step_down now t s) = commit_index s"
  by (simp add: step_down_def)

subsection \<open>C1: the leader's commit index\<close>

text \<open>
  Claim C1. The peers are the distinct keys of \<^verbatim>\<open>cluster_nodes\<close>; \<^verbatim>\<open>commit_index\<close> is
  never below \<open>-1\<close> and \<^verbatim>\<open>last_applied\<close> never below 0 (they start at 0). On the leader,
  a successful AppendEntries response of a term not above the leader's is processed
  without an exception; it records the peer's \<^verbatim>\<open>match_index\<close> and leaves the log and the
  term as they are; afterwards \<^verbatim>\<open>commit_index\<close> is the largest index \<open>N\<close> beyond the old
  \<^verbatim>\<open>commit_index\<close> and within the leader's log such that the leader and the peers with
  \<^verbatim>\<open>match_index \<ge> N\<close> are a quorum, at least \<open>\<lfloor>cluster size / 2\<rfloor> + 1\<close> nodes, and the
  entry at \<open>N\<close> is of the current term (\<^const>\<open>committable\<close>, which counts the nodes
  and states the majority on its own, apart from the count and the threshold of the
  code); when there is no such index it is unchanged.
  And whatever the response and the role, when the handler returns, \<^verbatim>\<open>commit_index\<close> is
  either unchanged or has moved forward to an index whose entry is of the current term.
  Indices are those of the code: positions in the Python list, from 0.
\<close>

theorem commit_index_advance:
  assumes "distinct (cluster_nodes s)" and "- 1 \<le> commit_index s" and "0 \<le> last_applied s"
  shows "(state s = LEADER \<and> resp_term r \<le> current_term s \<and> resp_success r = Some True \<longrightarrow>
          (\<exists>s'. handle_append_entries_response now peer r s = Inr s' \<and>
             raft_log s' = raft_log s \<and> current_term s' = current_term s \<and>
             commit_index s \<le> commit_index s' \<and>
             match_index s' =
               (match_index s)(peer \<mapsto> (case resp_match_index r of None \<Rightarrow> 0 | Some i \<Rightarrow> i)) \<and>
             (\<forall>n. committable (s\<lparr>match_index := match_index s'\<rparr>) n \<longrightarrow> n \<le> commit_index s') \<and>
             (if \<exists>n. committable (s\<lparr>match_index := match_index s'\<rparr>) n
              then committable (s\<lparr>match_index := match_index s'\<rparr>) (commit_index s')
              else commit_index s' = commit_index s)))
       \<and> (\<forall>s'. handle_append_entries_response now peer r s = Inr s' \<longrightarrow>
             commit_index s' = commit_index s \<or>
             (commit_index s < commit_index s' \<and>
              entry_term (raft_log s' ! nat (commit_index s')) = current_term s'))"
proof -
  define mi where "mi = (case resp_match_index r of None \<Rightarrow> 0 | Some i \<Rightarrow> i)"
  define s1 where "s1 = s\<lparr>next_index := (next_index s)(peer \<mapsto> mi + 1),
                          match_index := (match_index s)(peer \<mapsto> mi)\<rparr>"
  define s2 where "s2 = s\<lparr>match_index := (match_index s)(peer \<mapsto> mi)\<rparr>"
  have same: "committable s1 n = committable s2 n" for n
    by (simp add: committable_def s1_def s2_def cluster_size_def holders_of_entry_def)
  have leader_success: "\<exists>ci la ap.
      handle_append_entries_response now peer r s
        = Inr (s1\<lparr>commit_index := ci, last_applied := la, applied := ap\<rparr>) \<and>
      (\<forall>n. committable s2 n \<longrightarrow> n \<le> ci) \<and>
      (if \<exists>n. committable s2 n then committable s2 ci else ci = commit_index s)"
    if "state s = LEADER" "resp_term r \<le> current_term s" "resp_success r = Some True"
  proof -
    have run: "handle_append_entries_response now peer r s = update_commit_index s1"
      using that by (simp add: handle_append_entries_response_def s1_def mi_def Let_def)
    have "\<exists>ci la ap. update_commit_index s1
            = Inr (s1\<lparr>commit_index := ci, last_applied := la, applied := ap\<rparr>) \<and>
          (\<forall>n. committable s1 n \<longrightarrow> n \<le> ci) \<and>
          (if \<exists>n. committable s1 n then committable s1 ci else ci = commit_index s1)"
      using assms that by (intro update_commit_index_leader) (simp_all add: s1_def)
    then obtain ci la ap where
      u: "update_commit_index s1 = Inr (s1\<lparr>commit_index := ci, last_applied := la, applied := ap\<rparr>)"
      and mx: "\<forall>n. committable s2 n \<longrightarrow> n \<le> ci"
      and at: "if \<exists>n. committable s2 n then committable s2 ci else ci = commit_index s1"
      unfolding same by blast
    have "commit_index s1 = commit_index s" by (simp add: s1_def)
    with at have at': "if \<exists>n. committable s2 n then committable s2 ci else ci = commit_index s"
      by simp
    from u mx at' show ?thesis
      unfolding run by blast
  qed
  have part1: "\<exists>s'. handle_append_entries_response now peer r s = Inr s' \<and>
             raft_log s' = raft_log s \<and> current_term s' = current_term s \<and>
             commit_index s \<le> commit_index s' \<and>
             match_index s' = (match_index s)(peer \<mapsto> mi) \<and>
             (\<forall>n. committable (s\<lparr>match_index := match_index s'\<rparr>) n \<longrightarrow> n \<le> commit_index s') \<and>
             (if \<exists>n. committable (s\<lparr>match_index := match_index s'\<rparr>) n
              then committable (s\<lparr>match_index := match_index s'\<rparr>) (commit_index s')
              else commit_index s' = commit_index s)"
    if "state s = LEADER" "resp_term r \<le> current_term s" "resp_success r = Some True"
  proof -
    from leader_success[OF that] obtain ci la ap where
      run: "handle_append_entries_response now peer r s
        = Inr (s1\<lparr>commit_index := ci, last_applied := la, applied := ap\<rparr>)"
      and mx: "\<forall>n. committable s2 n \<longrightarrow> n \<le> ci"
      and at: "if \<exists>n. committable s2 n then committable s2 ci else ci = commit_index s"
      by blast
    have le: "commit_index s \<le> ci"
      using at by (auto simp: committable_def s2_def split: if_splits)
    let ?s' = "s1\<lparr>commit_index := ci, last_applied := la, applied := ap\<rparr>"
    have ms: "s\<lparr>match_index := match_index ?s'\<rparr> = s2"
      by (simp add: s1_def s2_def)
    have ci: "commit_index ?s' = ci"
      by simp
    show ?thesis
    proof (intro exI[of _ ?s'] conjI)
      show "handle_append_entries_response now peer r s = Inr ?s'"
        by (rule run)
      show "raft_log ?s' = raft_log s" and "current_term ?s' = current_term s"
        and "match_index ?s' = (match_index s)(peer \<mapsto> mi)"
        by (simp_all add: s1_def)
      show "commit_index s \<le> commit_index ?s'"
        using le by simp
      show "\<forall>n. committable (s\<lparr>match_index := match_index ?s'\<rparr>) n \<longrightarrow> n \<le> commit_index ?s'"
        unfolding ms ci by (rule mx)
      show "if \<exists>n. committable (s\<lparr>match_index := match_index ?s'\<rparr>) n
            then committable (s\<lparr>match_index := match_index ?s'\<rparr>) (commit_index ?s')
            else commit_index ?s' = commit_index s"
        unfolding ms ci by (rule at)
    qed
  qed
  have part2: "commit_index s' = commit_index s \<or>
             (commit_index s < commit_index s' \<and>
              entry_term (raft_log s' ! nat (commit_index s')) = current_term s')"
    if run: "handle_append_entries_response now peer r s = Inr s'" for s'
  proof (cases "state s = LEADER \<and> resp_term r \<le> current_term s \<and> resp_success r = Some True")
    case True
    then have "state s = LEADER" "resp_term r \<le> current_term s" "resp_success r = Some True"
      by simp_all
    from leader_success[OF this] run obtain ci la ap where
      s': "s' = s1\<lparr>commit_index := ci, last_applied := la, applied := ap\<rparr>"
      and at: "if \<exists>n. committable s2 n then committable s2 ci else ci = commit_index s"
      by auto
    show ?thesis
      using at by (auto simp: s' s1_def s2_def committable_def split: if_splits)
  next
    case False
    then have "commit_index s' = commit_index s"
      using run
      by (auto simp: handle_append_entries_response_def step_down_def Let_def
               split: if_splits option.splits)
    then show ?thesis by simp
  qed
  from part1 part2 show ?thesis
    unfolding mi_def by blast
qed

text \<open>
  Witness for C1: a leader of term 2 with two peers and the log terms \<open>[1, 2, 2]\<close>,
  \<^verbatim>\<open>commit_index = 0\<close>; peer \<open>n2\<close> reports \<^verbatim>\<open>match_index = 2\<close>. The commit index moves to 2
  and the entries 1 and 2 are applied.
\<close>

theorem commit_index_advance_witness:
  "distinct (cluster_nodes leader0) \<and> - 1 \<le> commit_index leader0 \<and> 0 \<le> last_applied leader0
   \<and> state leader0 = LEADER
   \<and> (\<exists>s'. handle_append_entries_response 0 ''n2''
              \<lparr>resp_term = 2, resp_sender_id = ''n2'', resp_success = Some True,
               resp_match_index = Some 2\<rparr> leader0 = Inr s'
          \<and> commit_index s' = 2 \<and> last_applied s' = 2 \<and> applied s' = [''b'', ''c'']
          \<and> entry_term (raft_log s' ! nat (commit_index s')) = current_term s')"
proof -
  let ?r = "\<lparr>resp_term = 2, resp_sender_id = ''n2'', resp_success = Some True,
               resp_match_index = Some 2\<rparr>"
  have d: "distinct (cluster_nodes leader0)" and c: "- 1 \<le> commit_index leader0"
    and l: "0 \<le> last_applied leader0"
    by (simp_all add: leader0_def)
  have run: "\<exists>s'. handle_append_entries_response 0 ''n2'' ?r leader0 = Inr s'
      \<and> commit_index s' = 2 \<and> last_applied s' = 2 \<and> applied s' = [''b'', ''c'']"
    by (simp add: leader0_def handle_append_entries_response_def update_commit_index_def
          find_commit.simps apply_committed_entries.simps py_index_def quorum_def
          replication_count_def)
  then obtain s' where s': "handle_append_entries_response 0 ''n2'' ?r leader0 = Inr s'"
    "commit_index s' = 2" "last_applied s' = 2" "applied s' = [''b'', ''c'']"
    by blast
  from commit_index_advance[OF d c l, of ?r 0 "''n2''"] s'(1)
  have "commit_index s' = commit_index leader0 \<or>
        entry_term (raft_log s' ! nat (commit_index s')) = current_term s'"
    by blast
  with s' have "entry_term (raft_log s' ! nat (commit_index s')) = current_term s'"
    by (simp add: leader0_def)
  with s' d c l show ?thesis by (auto simp: leader0_def)
qed


lemma log_matches_accepts:
  assumes "- 1 \<le> prev_log_index_of m" and "current_term s \<le> msg_term m"
  shows "log_matches (raft_log s) (prev_log_index_of m) (prev_log_term_of m) = Inr (accepts s m)"
  using assms
  by (auto simp: log_matches_def accepts_def py_index_def)

lemma appended_log:
  assumes "- 1 \<le> p" and "p = - 1 \<or> p < int (length lg)"
  shows "(if p + 1 < int (length lg) then py_slice_to lg (p + 1) else lg) @ es
           = take (nat (p + 1)) lg @ es"
  using assms by (auto simp: py_slice_to_def)


lemmas raft_eval = handle_append_entries_def log_matches_def py_index_def py_slice_to_def
  prev_log_index_of_def prev_log_term_of_def entries_of_def leader_commit_of_def
  append_entries_reply_def apply_committed_entries.simps Let_def

subsection \<open>C2: the follower's AppendEntries handler\<close>

text \<open>
  Counterexample to C2 as stated. A follower of term 1 holds three entries of term 1 and
  \<^verbatim>\<open>commit_index = 0\<close>; the leader's heartbeat has \<^verbatim>\<open>prev_log_index = 0\<close>,
  \<^verbatim>\<open>prev_log_term = 1\<close>, no entries and \<^verbatim>\<open>leader_commit = 5\<close>. The message is accepted
  (\<^verbatim>\<open>match_index = 0\<close>), but the suffix after index 0 is not truncated: the log keeps its
  three entries; and \<^verbatim>\<open>commit_index\<close> becomes 2, the last index of the local log, not
  \<open>min(5, 0)\<close>.
\<close>

theorem append_entries_heartbeat_counterexample:
  "\<exists>reply s'. handle_append_entries 7 heartbeat0 follower0 = Inr (reply, s') \<and>
      resp_success reply = Some True \<and> resp_match_index reply = Some 0 \<and>
      prev_log_index_of heartbeat0 = 0 \<and> entries_of heartbeat0 = [] \<and>
      leader_commit_of heartbeat0 = 5 \<and> commit_index follower0 = 0 \<and>
      length (raft_log follower0) = 3 \<and>
      raft_log s' = raft_log follower0 \<and>
      raft_log s' \<noteq> take (nat (prev_log_index_of heartbeat0 + 1)) (raft_log follower0)
                        @ entries_of heartbeat0 \<and>
      commit_index s' = 2 \<and>
      commit_index s' \<noteq> min (leader_commit_of heartbeat0)
                           (prev_log_index_of heartbeat0 + int (length (entries_of heartbeat0)))"
  by (simp add: raft_eval heartbeat0_def follower0_def)

text \<open>
  Claim C2, amended. For a message whose \<^verbatim>\<open>prev_log_index\<close> is at least the sentinel
  \<open>-1\<close> (a leader never sends less), on a node with \<^verbatim>\<open>last_applied \<ge> 0\<close>, the handler
  returns a reply and never raises. The reply has \<^verbatim>\<open>success = true\<close> exactly when the
  message term is at least \<^verbatim>\<open>current_term\<close> and \<^verbatim>\<open>prev_log_index\<close> is the sentinel or the
  local entry at \<^verbatim>\<open>prev_log_index\<close> has term \<^verbatim>\<open>prev_log_term\<close> (\<^const>\<open>accepts\<close>). On accept:
  when the message carries entries, the log becomes its first \<open>prev_log_index + 1\<close>
  entries followed by the received ones, and the last index of the log is
  \<open>prev_log_index + len(entries)\<close>, the index of the last new entry; when it carries
  none, the log is left as it is, without truncation; \<^verbatim>\<open>commit_index\<close> becomes the minimum
  of \<^verbatim>\<open>leader_commit\<close> and the last index of the resulting log when \<^verbatim>\<open>leader_commit\<close>
  exceeds it, and is unchanged otherwise; the election timer is reset; the reply carries
  \<open>match_index = prev_log_index + len(entries)\<close>. On reject the reply has
  \<^verbatim>\<open>success = false\<close> and \<^verbatim>\<open>match_index = 0\<close>, and the log and \<^verbatim>\<open>commit_index\<close> are unchanged.
\<close>

theorem append_entries_follower:
  assumes "- 1 \<le> prev_log_index_of m" and "0 \<le> last_applied s"
  shows "\<exists>reply s'. handle_append_entries now m s = Inr (reply, s') \<and>
     resp_success reply = Some (accepts s m) \<and>
     (accepts s m \<longrightarrow>
        raft_log s' = (if entries_of m \<noteq> []
                       then take (nat (prev_log_index_of m + 1)) (raft_log s) @ entries_of m
                       else raft_log s) \<and>
        (entries_of m \<noteq> [] \<longrightarrow>
           int (length (raft_log s')) - 1 = prev_log_index_of m + int (length (entries_of m))) \<and>
        commit_index s' = (if commit_index s < leader_commit_of m
                           then min (leader_commit_of m) (int (length (raft_log s')) - 1)
                           else commit_index s) \<and>
        last_heartbeat s' = now \<and>
        resp_match_index reply = Some (prev_log_index_of m + int (length (entries_of m)))) \<and>
     (\<not> accepts s m \<longrightarrow>
        raft_log s' = raft_log s \<and> commit_index s' = commit_index s \<and>
        resp_match_index reply = Some 0)"
proof (cases "msg_term m < current_term s")
  case True
  then have "\<not> accepts s m" by (simp add: accepts_def)
  with True show ?thesis
    by (simp add: handle_append_entries_def append_entries_reply_def)
next
  case False
  then have term_ok: "current_term s \<le> msg_term m" by simp
  define s1 where "s1 = s\<lparr>last_heartbeat := now,
      state := (if state s = CANDIDATE then FOLLOWER else state s)\<rparr>"
  have lm: "log_matches (raft_log s1) (prev_log_index_of m) (prev_log_term_of m) = Inr (accepts s m)"
    using log_matches_accepts[OF assms(1) term_ok] by (simp add: s1_def)
  show ?thesis
  proof (cases "accepts s m")
    case no: False
    then have "handle_append_entries now m s = Inr (append_entries_reply s1 False 0, s1)"
      using False lm by (simp add: handle_append_entries_def Let_def s1_def[symmetric])
    with no show ?thesis
      by (simp add: append_entries_reply_def s1_def)
  next
    case yes: True
    define p where "p = prev_log_index_of m"
    define es where "es = entries_of m"
    define lc where "lc = leader_commit_of m"
    define lg where "lg = (if es \<noteq> [] then take (nat (p + 1)) (raft_log s) @ es else raft_log s)"
    define s2 where "s2 = s1\<lparr>raft_log := lg\<rparr>"
    have prange: "p = - 1 \<or> p < int (length (raft_log s))"
      using yes by (auto simp: accepts_def p_def)
    have p1: "- 1 \<le> p" using assms(1) by (simp add: p_def)
    have s2_eq: "(if es \<noteq> [] then
               s1\<lparr>raft_log := (if p + 1 < int (length (raft_log s1))
                                then py_slice_to (raft_log s1) (p + 1)
                                else raft_log s1) @ es\<rparr>
             else s1) = s2"
    proof -
      have rl: "raft_log s1 = raft_log s" by (simp add: s1_def)
      have al: "(if p + 1 < int (length (raft_log s1))
                 then py_slice_to (raft_log s1) (p + 1) else raft_log s1) @ es
                = take (nat (p + 1)) (raft_log s) @ es"
        unfolding rl by (rule appended_log[OF p1 prange])
      have "s1\<lparr>raft_log := raft_log s\<rparr> = s1"
        using rl by simp
      then show ?thesis
        unfolding al by (simp add: s2_def lg_def)
    qed
    have len: "es \<noteq> [] \<Longrightarrow> int (length lg) - 1 = p + int (length es)"
      using p1 prange by (auto simp: lg_def)
    have run: "handle_append_entries now m s =
        (if commit_index s2 < lc then
           (case apply_committed_entries (s2\<lparr>commit_index := min lc (int (length (raft_log s2)) - 1)\<rparr>) of
              Inl e \<Rightarrow> Inl e
            | Inr s3 \<Rightarrow> Inr (append_entries_reply s3 True (p + int (length es)), s3))
         else Inr (append_entries_reply s2 True (p + int (length es)), s2))"
      using False lm yes s2_eq
      by (simp add: handle_append_entries_def Let_def s1_def[symmetric]
            p_def[symmetric] es_def[symmetric] lc_def[symmetric])
    have lgs: "es \<noteq> [] \<Longrightarrow> lg = take (nat (p + 1)) (raft_log s) @ es"
      "es = [] \<Longrightarrow> lg = raft_log s"
      by (simp_all add: lg_def)
    have basics: "raft_log s2 = lg" "commit_index s2 = commit_index s"
      "last_heartbeat s2 = now" "last_applied s2 = last_applied s"
      by (simp_all add: s2_def s1_def)
    show ?thesis
    proof (cases "commit_index s2 < lc")
      case nc: False
      then have "handle_append_entries now m s = Inr (append_entries_reply s2 True (p + int (length es)), s2)"
        using run by simp
      with yes nc basics len lgs show ?thesis
        by (simp add: append_entries_reply_def p_def[symmetric] es_def[symmetric]
              lc_def[symmetric])
    next
      case c: True
      let ?s2c = "s2\<lparr>commit_index := min lc (int (length (raft_log s2)) - 1)\<rparr>"
      have "\<exists>ap. apply_committed_entries ?s2c =
           Inr (?s2c\<lparr>last_applied := max (last_applied ?s2c) (commit_index ?s2c),
                     applied := applied ?s2c @ ap\<rparr>)"
        using assms(2) basics by (intro apply_committed_entries_ok) simp_all
      then obtain ap where ap: "apply_committed_entries ?s2c =
           Inr (?s2c\<lparr>last_applied := max (last_applied ?s2c) (commit_index ?s2c),
                     applied := applied ?s2c @ ap\<rparr>)"
        by blast
      let ?s3 = "?s2c\<lparr>last_applied := max (last_applied ?s2c) (commit_index ?s2c),
                     applied := applied ?s2c @ ap\<rparr>"
      have "handle_append_entries now m s = Inr (append_entries_reply ?s3 True (p + int (length es)), ?s3)"
        using run c ap by simp
      with yes c basics len lgs show ?thesis
        by (simp add: append_entries_reply_def p_def[symmetric] es_def[symmetric]
              lc_def[symmetric])
    qed
  qed
qed

text \<open>
  Witness for C2 amended: the same follower receives one entry after index 0; its log
  becomes the entries \<open>a, b\<close>, \<^verbatim>\<open>commit_index\<close> becomes \<open>min(5, 1) = 1\<close>, the reply is
  \<^verbatim>\<open>success = true, match_index = 1\<close>.
\<close>

theorem append_entries_follower_witness:
  "- 1 \<le> prev_log_index_of append0 \<and> 0 \<le> last_applied follower0 \<and> accepts follower0 append0 \<and>
   (\<exists>reply s'. handle_append_entries 7 append0 follower0 = Inr (reply, s') \<and>
      resp_success reply = Some True \<and> resp_match_index reply = Some 1 \<and>
      map entry_command (raft_log s') = [''a'', ''b''] \<and> commit_index s' = 1 \<and>
      last_heartbeat s' = 7)"
proof -
  have p: "- 1 \<le> prev_log_index_of append0" and l: "0 \<le> last_applied follower0"
    by (simp_all add: append0_def follower0_def prev_log_index_of_def)
  have acc: "accepts follower0 append0"
    by (simp add: accepts_def append0_def follower0_def prev_log_index_of_def prev_log_term_of_def)
  have vals: "prev_log_index_of append0 = 0" "leader_commit_of append0 = 5"
    "entries_of append0 = [\<lparr>entry_term = 1, entry_index = 1, entry_command = ''b'', entry_timestamp = 0\<rparr>]"
    by (simp_all add: append0_def prev_log_index_of_def leader_commit_of_def entries_of_def)
  from append_entries_follower[OF p l, of 7] acc
  obtain reply s' where run: "handle_append_entries 7 append0 follower0 = Inr (reply, s')"
    and ok: "resp_success reply = Some True"
    and lg: "raft_log s' = (if entries_of append0 \<noteq> []
                       then take (nat (prev_log_index_of append0 + 1)) (raft_log follower0) @ entries_of append0
                       else raft_log follower0)"
    and ci: "commit_index s' = (if commit_index follower0 < leader_commit_of append0
                           then min (leader_commit_of append0) (int (length (raft_log s')) - 1)
                           else commit_index follower0)"
    and hb: "last_heartbeat s' = 7"
    and mi: "resp_match_index reply = Some (prev_log_index_of append0 + int (length (entries_of append0)))"
    by auto
  have lg': "map entry_command (raft_log s') = [''a'', ''b'']"
    using lg by (simp add: vals follower0_def)
  have "length (raft_log s') = 2"
    using lg by (simp add: vals follower0_def)
  then have ci': "commit_index s' = 1"
    using ci by (simp add: vals follower0_def)
  from p l acc run ok mi lg' ci' hb show ?thesis
    by (simp add: vals)
qed


subsection \<open>The bounds on the two indices are kept by both handlers\<close>

lemma apply_committed_entries_monotone:
  "apply_committed_entries s = Inr s' \<Longrightarrow>
     commit_index s' = commit_index s \<and> last_applied s \<le> last_applied s'"
proof (induction s rule: apply_committed_entries.induct)
  case (1 s)
  show ?case
  proof (cases "last_applied s < commit_index s")
    case False
    with "1.prems" show ?thesis
      by (simp add: apply_committed_entries.simps[of s])
  next
    case True
    with "1.prems" obtain entry where
      idx: "py_index (raft_log s) (last_applied s + 1) = Inr entry"
      and run: "apply_committed_entries
               (s\<lparr>last_applied := last_applied s + 1, applied := applied s @ [entry_command entry]\<rparr>)
             = Inr s'"
      by (auto simp: apply_committed_entries.simps[of s] split: sum.splits)
    from "1.IH"[OF True idx run] show ?thesis by simp
  qed
qed

lemma raft_bounds_init:
  "commit_index s = 0 \<Longrightarrow> last_applied s = 0 \<Longrightarrow> raft_bounds s"
  by (simp add: raft_bounds_def)

lemma find_commit_above:
  "find_commit s n = Inr (Some m) \<Longrightarrow> commit_index s < m"
proof (induction s n rule: find_commit.induct)
  case (1 s n)
  then show ?case
    by (auto simp: find_commit.simps[of s n] split: if_splits sum.splits)
qed

lemma raft_bounds_response:
  assumes "raft_bounds s" and "handle_append_entries_response now peer r s = Inr s'"
  shows "raft_bounds s'"
proof -
  have upd: "raft_bounds t'" if "raft_bounds t" "update_commit_index t = Inr t'" for t t' :: "'a RaftNode"
  proof (cases "state t = LEADER")
    case False
    with that show ?thesis by (simp add: update_commit_index_def)
  next
    case True
    show ?thesis
    proof (cases "find_commit t (int (length (raft_log t)) - 1)")
      case (Inl e)
      with that True show ?thesis by (simp add: update_commit_index_def)
    next
      case (Inr found)
      show ?thesis
      proof (cases found)
        case None
        with that True Inr show ?thesis by (simp add: update_commit_index_def)
      next
        case (Some m)
        with that True Inr have run: "apply_committed_entries (t\<lparr>commit_index := m\<rparr>) = Inr t'"
          by (simp add: update_commit_index_def)
        from find_commit_above Inr Some have "commit_index t < m" by blast
        with apply_committed_entries_monotone[OF run] that(1) show ?thesis
          by (simp add: raft_bounds_def)
      qed
    qed
  qed
  have rb: "raft_bounds (s\<lparr>next_index := ni, match_index := mi\<rparr>)" for ni mi
    using assms(1) by (simp add: raft_bounds_def)
  have rb2: "raft_bounds (s\<lparr>next_index := ni\<rparr>)" for ni
    using assms(1) by (simp add: raft_bounds_def)
  have rb3: "raft_bounds (step_down now t s)" for t
    using assms(1) by (simp add: raft_bounds_def step_down_def)
  show ?thesis
  proof (cases "current_term s < resp_term r")
    case True
    with assms(2) have "s' = step_down now (resp_term r) s"
      by (simp add: handle_append_entries_response_def)
    with rb3 show ?thesis by simp
  next
    case old: False
    show ?thesis
    proof (cases "state s = LEADER")
      case False
      with old assms(2) have "s' = s"
        by (simp add: handle_append_entries_response_def)
      with assms(1) show ?thesis by simp
    next
      case True
      define mi where "mi = (case resp_match_index r of None \<Rightarrow> 0 | Some i \<Rightarrow> i)"
      show ?thesis
      proof (cases "case resp_success r of None \<Rightarrow> False | Some b \<Rightarrow> b")
        case yes: True
        with old True assms(2) have "update_commit_index
            (s\<lparr>next_index := (next_index s)(peer \<mapsto> mi + 1),
               match_index := (match_index s)(peer \<mapsto> mi)\<rparr>) = Inr s'"
          by (simp add: handle_append_entries_response_def Let_def mi_def)
        from upd[OF rb this] show ?thesis .
      next
        case no: False
        with old True assms(2) obtain ni where
          "s' = s\<lparr>next_index := (next_index s)(peer \<mapsto> max 0 (ni - 1))\<rparr>"
          by (auto simp: handle_append_entries_response_def Let_def split: option.splits)
        with rb2 show ?thesis by simp
      qed
    qed
  qed
qed

lemma raft_bounds_append_entries:
  assumes "raft_bounds s" and "handle_append_entries now m s = Inr (reply, s')"
  shows "raft_bounds s'"
proof (cases "msg_term m < current_term s")
  case True
  with assms(2) have "s' = s"
    by (simp add: handle_append_entries_def)
  with assms(1) show ?thesis by simp
next
  case False
  define s1 where "s1 = s\<lparr>last_heartbeat := now,
      state := (if state s = CANDIDATE then FOLLOWER else state s)\<rparr>"
  have b1: "raft_bounds s1"
    using assms(1) by (simp add: raft_bounds_def s1_def)
  show ?thesis
  proof (cases "log_matches (raft_log s1) (prev_log_index_of m) (prev_log_term_of m)")
    case (Inl e)
    with False assms(2) show ?thesis
      by (simp add: handle_append_entries_def Let_def s1_def[symmetric])
  next
    case (Inr ok)
    show ?thesis
    proof (cases ok)
      case no: False
      with False Inr assms(2) have "s' = s1"
        by (simp add: handle_append_entries_def Let_def s1_def[symmetric])
      with b1 show ?thesis by simp
    next
      case yes: True
      define s2 where "s2 = (if entries_of m \<noteq> [] then
                             s1\<lparr>raft_log :=
                                 (if prev_log_index_of m + 1 < int (length (raft_log s1))
                                  then py_slice_to (raft_log s1) (prev_log_index_of m + 1)
                                  else raft_log s1) @ entries_of m\<rparr>
                           else s1)"
      have b2: "raft_bounds s2"
        using b1 by (simp add: raft_bounds_def s2_def)
      show ?thesis
      proof (cases "commit_index s2 < leader_commit_of m")
        case nc: False
        with False Inr yes assms(2) have "s' = s2"
          by (simp add: handle_append_entries_def Let_def s1_def[symmetric] s2_def[symmetric])
        with b2 show ?thesis by simp
      next
        case c: True
        with False Inr yes assms(2) have run: "apply_committed_entries
            (s2\<lparr>commit_index := min (leader_commit_of m) (int (length (raft_log s2)) - 1)\<rparr>) = Inr s'"
          by (simp add: handle_append_entries_def Let_def s1_def[symmetric] s2_def[symmetric]
                split: sum.splits)
        from apply_committed_entries_monotone[OF run] b2 c show ?thesis
          by (simp add: raft_bounds_def)
      qed
    qed
  qed
qed


section \<open>Queue: proofs\<close>

lemma map_of_dict_del:
  "k' \<noteq> k \<Longrightarrow> map_of (dict_del d k) k' = map_of d k'"
  by (induction d) (auto simp: dict_del_def)

lemma fst_set_dict_del:
  "fst ` set (dict_del d k) = fst ` set d - {k}"
  by (auto simp: dict_del_def)

lemma distinct_dict_del:
  "distinct (map fst d) \<Longrightarrow> distinct (map fst (dict_del d k))"
  by (simp add: dict_del_def distinct_map_filter)

lemma get_node_returns:
  assumes "ring_consistent ch"
  shows "\<exists>node. get_node rt ch key = Inr node"
proof (cases "ring ch = []")
  case True
  then show ?thesis by (simp add: get_node_def)
next
  case False
  have keys: "set (sorted_keys ch) = fst ` set (ring ch)"
    using assms by (simp add: ring_consistent_def)
  have found: "\<exists>node. ring_lookup (ring ch) k = Inr node" if "k \<in> set (sorted_keys ch)" for k
  proof -
    from that keys have "k \<in> fst ` set (ring ch)" by simp
    then obtain node where "map_of (ring ch) k = Some node"
      by (metis image_iff map_of_eq_None_iff not_Some_eq prod.collapse)
    then show ?thesis by (simp add: ring_lookup_def)
  qed
  show ?thesis
  proof (cases "find (\<lambda>ring_hash. md5_int rt key \<le> ring_hash) (sorted_keys ch)")
    case (Some rh)
    then have "rh \<in> set (sorted_keys ch)"
      by (auto simp: find_Some_iff)
    from found[OF this] Some False show ?thesis
      by (simp add: get_node_def)
  next
    case None
    from False keys have "sorted_keys ch \<noteq> []" by auto
    then obtain k ks where ks: "sorted_keys ch = k # ks"
      by (cases "sorted_keys ch") auto
    then have "k \<in> set (sorted_keys ch)" by simp
    from found[OF this] None False ks show ?thesis
      by (simp add: get_node_def)
  qed
qed

lemma choose_partition_range:
  assumes "0 < QUEUE_PARTITIONS rt" and "ring_consistent (consistent_hash q)"
  shows "\<exists>p. choose_partition rt q partition_key = Inr p \<and> 0 \<le> p \<and> p < QUEUE_PARTITIONS rt"
proof -
  have rr: "\<exists>p. py_mod a (QUEUE_PARTITIONS rt) = Inr p \<and> 0 \<le> p \<and> p < QUEUE_PARTITIONS rt" for a
    using assms(1) by (simp add: py_mod_def)
  have keyed: "\<exists>p. get_partition rt q key = Inr p \<and> 0 \<le> p \<and> p < QUEUE_PARTITIONS rt" for key
  proof -
    from get_node_returns[OF assms(2)] obtain node
      where "get_node rt (consistent_hash q) key = Inr node" by blast
    then show ?thesis using rr by (simp add: get_partition_def)
  qed
  show ?thesis
  proof (cases partition_key)
    case None
    then show ?thesis using rr by (simp add: choose_partition_def)
  next
    case (Some key)
    then show ?thesis using rr keyed by (simp add: choose_partition_def)
  qed
qed

lemmas queue_eval = produce_def choose_partition_def get_partition_def get_node_def py_mod_def
  ring_lookup_def new_message_def str_int_def str_nat.simps digit_char_def consume_turn_def
  ack_key_def acknowledge_def dict_del_def check_redelivery_pass_def expired_keys_def
  is_expired_def redelivery_timeout_def redeliver_def Let_def

lemma ring_consistent_add_node: "ring_consistent (add_node rt node ch)"
  by (simp add: add_node_def ring_consistent_def Let_def)

lemma ring_consistent_init: "ring_consistent (ConsistentHash_init rt nodes vn)"
proof (cases nodes rule: rev_cases)
  case Nil
  then show ?thesis
    by (simp add: ConsistentHash_init_def ConsistentHash_empty_def ring_consistent_def)
next
  case (snoc ns node)
  then show ?thesis
    by (simp add: ConsistentHash_init_def ring_consistent_add_node)
qed

lemma ack_key_inject:
  assumes "CHR '':'' \<notin> set c" and "CHR '':'' \<notin> set c'" and "ack_key c m = ack_key c' m'"
  shows "c = c' \<and> m = m'"
  using assms
proof (induction c arbitrary: c')
  case Nil
  then show ?case by (cases c') (auto simp: ack_key_def)
next
  case (Cons a c)
  then show ?case by (cases c') (auto simp: ack_key_def)
qed

lemma redeliver_all_spec:
  assumes "distinct ks" and "set ks \<subseteq> fst ` set (pending_acks q)"
    and "distinct (map fst (pending_acks q))"
  shows "\<exists>q'. redeliver_all q ks = Inr q' \<and>
     pending_acks q' = filter (\<lambda>kv. fst kv \<notin> set ks) (pending_acks q) \<and>
     (\<forall>p. partitions q' p =
        rev (filter (\<lambda>m. msg_partition m = p) (map (\<lambda>k. the (map_of (pending_acks q) k)) ks))
        @ partitions q p) \<and>
     redelivered q' = redelivered q + int (length ks)"
  using assms
proof (induction ks arbitrary: q)
  case Nil
  then show ?case by simp
next
  case (Cons k ks)
  from Cons.prems(2) have "k \<in> fst ` set (pending_acks q)" by simp
  then obtain m where m: "map_of (pending_acks q) k = Some m"
    by (metis map_of_eq_None_iff not_Some_eq)
  define q1 where "q1 = q\<lparr>pending_acks := dict_del (pending_acks q) k,
                 partitions := (partitions q)(msg_partition m := m # partitions q (msg_partition m)),
                 redelivered := redelivered q + 1\<rparr>"
  have step: "redeliver q k = Inr q1"
    using m by (simp add: redeliver_def q1_def)
  have pa1: "pending_acks q1 = dict_del (pending_acks q) k"
    and pt1: "partitions q1 = (partitions q)(msg_partition m := m # partitions q (msg_partition m))"
    and rd1: "redelivered q1 = redelivered q + 1"
    by (simp_all add: q1_def)
  have d: "distinct ks" and nk: "k \<notin> set ks" using Cons.prems(1) by simp_all
  have sub: "set ks \<subseteq> fst ` set (pending_acks q1)"
    using Cons.prems(2) nk by (auto simp: pa1 fst_set_dict_del)
  have dis: "distinct (map fst (pending_acks q1))"
    using Cons.prems(3) by (simp add: pa1 distinct_dict_del)
  from Cons.IH[OF d sub dis] obtain q' where
    run: "redeliver_all q1 ks = Inr q'"
    and pa: "pending_acks q' = filter (\<lambda>kv. fst kv \<notin> set ks) (pending_acks q1)"
    and pt: "\<And>p. partitions q' p =
        rev (filter (\<lambda>m. msg_partition m = p) (map (\<lambda>k. the (map_of (pending_acks q1) k)) ks))
        @ partitions q1 p"
    and rd: "redelivered q' = redelivered q1 + int (length ks)"
    by blast
  have same: "map (\<lambda>k'. the (map_of (pending_acks q1) k')) ks
      = map (\<lambda>k'. the (map_of (pending_acks q) k')) ks"
  proof (rule map_cong[OF refl])
    fix k' assume "k' \<in> set ks"
    with nk have "k' \<noteq> k" by auto
    then show "the (map_of (pending_acks q1) k') = the (map_of (pending_acks q) k')"
      by (simp add: pa1 map_of_dict_del)
  qed
  have pa': "pending_acks q' = filter (\<lambda>kv. fst kv \<notin> set (k # ks)) (pending_acks q)"
    unfolding pa pa1 dict_del_def by (auto intro: filter_cong)
  have pt': "partitions q' p =
        rev (filter (\<lambda>m. msg_partition m = p) (map (\<lambda>k. the (map_of (pending_acks q) k)) (k # ks)))
        @ partitions q p" for p
    unfolding pt same pt1 using m by simp
  have rd': "redelivered q' = redelivered q + int (length (k # ks))"
    using rd rd1 by simp
  have "redeliver_all q (k # ks) = Inr q'"
    using step run by simp
  with pa' pt' rd' show ?case by blast
qed

lemma distinct_keys_lookup:
  assumes "distinct (map fst d)"
  shows "map (\<lambda>k. the (map_of d k)) (map fst (filter P d)) = map snd (filter P d)"
proof -
  have "the (map_of d (fst kv)) = snd kv" if "kv \<in> set d" for kv
    using assms that by (cases kv) simp
  then show ?thesis by (simp add: comp_def)
qed

lemma distinct_keys_filter:
  assumes "distinct (map fst d)"
  shows "filter (\<lambda>kv. fst kv \<notin> set (map fst (filter P d))) d = filter (\<lambda>kv. \<not> P kv) d"
proof (rule filter_cong[OF refl])
  fix kv assume kv: "kv \<in> set d"
  have "fst kv \<in> fst ` set (filter P d) \<longleftrightarrow> P kv"
  proof
    assume "fst kv \<in> fst ` set (filter P d)"
    then obtain kv' where kv': "kv' \<in> set d" "P kv'" "fst kv' = fst kv" by auto
    with assms kv have "kv' = kv"
      by (metis eq_key_imp_eq_value prod.collapse)
    with kv' show "P kv" by simp
  next
    assume "P kv" with kv show "fst kv \<in> fst ` set (filter P d)" by auto
  qed
  then show "(fst kv \<notin> set (map fst (filter P d))) = (\<not> P kv)" by simp
qed

lemma check_redelivery_pass_spec:
  assumes "distinct (map fst (pending_acks q))"
  shows "\<exists>q'. check_redelivery_pass rt now q = Inr q' \<and>
     pending_acks q' = filter (\<lambda>kv. \<not> float_sub rt now (msg_timestamp (snd kv)) > 30) (pending_acks q) \<and>
     (\<forall>p. partitions q' p =
        rev (filter (\<lambda>m. msg_partition m = p)
               (map snd (filter (\<lambda>kv. float_sub rt now (msg_timestamp (snd kv)) > 30) (pending_acks q))))
        @ partitions q p) \<and>
     redelivered q' = redelivered q
        + int (length (filter (\<lambda>kv. float_sub rt now (msg_timestamp (snd kv)) > 30) (pending_acks q)))"
proof -
  let ?E = "\<lambda>kv::string \<times> 'a Message. float_sub rt now (msg_timestamp (snd kv)) > 30"
  have E: "is_expired rt now = ?E"
    by (rule ext) (simp add: is_expired_def redelivery_timeout_def)
  have ks: "expired_keys rt now q = map fst (filter ?E (pending_acks q))"
    by (simp add: expired_keys_def E)
  have d: "distinct (expired_keys rt now q)"
    unfolding ks using assms by (simp add: distinct_map_filter)
  have sub: "set (expired_keys rt now q) \<subseteq> fst ` set (pending_acks q)"
    unfolding ks by auto
  from redeliver_all_spec[OF d sub assms] obtain q' where
    run: "redeliver_all q (expired_keys rt now q) = Inr q'"
    and pa: "pending_acks q' = filter (\<lambda>kv. fst kv \<notin> set (expired_keys rt now q)) (pending_acks q)"
    and pt: "\<And>p. partitions q' p =
        rev (filter (\<lambda>m. msg_partition m = p)
              (map (\<lambda>k. the (map_of (pending_acks q) k)) (expired_keys rt now q)))
        @ partitions q p"
    and rd: "redelivered q' = redelivered q + int (length (expired_keys rt now q))"
    by blast
  have "check_redelivery_pass rt now q = Inr q'"
    using run by (simp add: check_redelivery_pass_def)
  moreover have "pending_acks q' = filter (\<lambda>kv. \<not> ?E kv) (pending_acks q)"
    unfolding pa ks by (rule distinct_keys_filter[OF assms])
  moreover have "partitions q' p =
        rev (filter (\<lambda>m. msg_partition m = p) (map snd (filter ?E (pending_acks q))))
        @ partitions q p" for p
    unfolding pt ks distinct_keys_lookup[OF assms] by (rule refl)
  moreover have "redelivered q' = redelivered q + int (length (filter ?E (pending_acks q)))"
    using rd by (simp add: ks)
  ultimately show ?thesis by blast
qed


lemma consume_turn_keeps_timestamp:
  assumes "consume_turn rt t start_time timeout p c q0 = (Some m', q1)"
  shows "\<exists>m rest. partitions q0 p = m # rest \<and> m' = m\<lparr>attempts := attempts m + 1\<rparr> \<and>
           msg_timestamp m' = msg_timestamp m \<and>
           map_of (pending_acks q1) (ack_key c (message_id m)) = Some m'"
proof -
  have look: "map_of (dict_set d k v) k = Some v" for d :: "(string \<times> 'a Message) list" and k v
    by (induction d) auto
  from assms show ?thesis
    by (auto simp: consume_turn_def Let_def look split: if_splits list.splits)
qed

subsection \<open>C6: redelivery\<close>

text \<open>
  Counterexample to C6 as stated. A message is produced at time 0, delivered to consumer
  \<open>c1\<close> at time 100 and so pending; the pass of the redelivery loop at time 101 puts it
  back at the head of partition 0 and drops the pending entry, one second after the
  delivery and well within the 30 seconds of the visibility timeout. (The floats
  subtracted are 0, 100 and 101, whose differences are computed exactly.)
\<close>

theorem redelivery_counterexample:
  "\<exists>mid q1 m q2 q3.
      produce rt0 ''0.0'' 0 ''payload'' None queue0 = Inr (mid, q1) \<and>
      consume_turn rt0 100 100 5 0 ''c1'' q1 = (Some m, q2) \<and>
      pending_acks q2 = [(ack_key ''c1'' mid, m)] \<and>
      check_redelivery_pass rt0 101 q2 = Inr q3 \<and>
      pending_acks q3 = [] \<and> partitions q3 0 = [m] \<and>
      float_sub rt0 100 100 < 5 \<and> float_sub rt0 101 100 < redelivery_timeout"
  by (simp add: queue_eval rt0_def queue0_def)


text \<open>
  Claim C6, amended. \<^verbatim>\<open>pending_acks\<close> is a dictionary, so its keys are distinct. A pass
  of the redelivery loop at time \<open>now\<close> never raises, and it requeues a pending entry
  exactly when the test of the code succeeds: the float that the subtraction
  \<^verbatim>\<open>now - message.timestamp\<close> returns (the double nearest to the difference, here
  \<open>float_sub rt now timestamp\<close>, for every such subtraction) is greater than 30.0. The
  entries that stay pending are those for which this is false, in their order; the messages of the others are put in front
  of their partitions, one after the other in the order of \<^verbatim>\<open>pending_acks\<close> (so the last
  expired message of a partition ends at its head), and \<^verbatim>\<open>redelivered\<close> counts them.
  The timestamp compared is the one the message got when it was created by
  \<^verbatim>\<open>produce\<close>: a delivery by \<^verbatim>\<open>consume\<close>, at whatever time, stores the message in
  \<^verbatim>\<open>pending_acks\<close> with that timestamp unchanged and records no time of its own.
\<close>

theorem redelivery_by_timestamp:
  assumes "distinct (map fst (pending_acks q))"
  shows "(\<exists>q'. check_redelivery_pass rt now q = Inr q' \<and>
     pending_acks q' = filter (\<lambda>kv. \<not> float_sub rt now (msg_timestamp (snd kv)) > 30) (pending_acks q) \<and>
     (\<forall>p. partitions q' p =
        rev (filter (\<lambda>m. msg_partition m = p)
               (map snd (filter (\<lambda>kv. float_sub rt now (msg_timestamp (snd kv)) > 30) (pending_acks q))))
        @ partitions q p) \<and>
     redelivered q' = redelivered q
        + int (length (filter (\<lambda>kv. float_sub rt now (msg_timestamp (snd kv)) > 30) (pending_acks q))))
   \<and> (\<forall>t start_time timeout p c m' q1.
         consume_turn rt t start_time timeout p c q = (Some m', q1) \<longrightarrow>
           (\<exists>m rest. partitions q p = m # rest \<and> msg_timestamp m' = msg_timestamp m \<and>
              map_of (pending_acks q1) (ack_key c (message_id m)) = Some m'))"
  using check_redelivery_pass_spec[OF assms, of rt now] consume_turn_keeps_timestamp[of rt _ _ _ _ _ q]
  by blast

text \<open>
  Witness for C6 amended: two pending entries, created at times 0 and 80; the pass at
  time 100 requeues the first and keeps the second.
\<close>

theorem redelivery_by_timestamp_witness:
  "distinct (map fst (pending_acks queue2)) \<and>
   (\<exists>q'. check_redelivery_pass rt0 100 queue2 = Inr q' \<and>
      map fst (pending_acks q') = [''c1:m2''] \<and>
      map message_id (partitions q' 0) = [''m1''])"
proof -
  have d: "distinct (map fst (pending_acks queue2))"
    by (simp add: queue2_def)
  from redelivery_by_timestamp[OF d, of rt0 100] obtain q' where
    run: "check_redelivery_pass rt0 100 queue2 = Inr q'"
    and pa: "pending_acks q' = filter (\<lambda>kv. \<not> float_sub rt0 100 (msg_timestamp (snd kv)) > 30) (pending_acks queue2)"
    and pt: "\<forall>p. partitions q' p =
        rev (filter (\<lambda>m. msg_partition m = p)
               (map snd (filter (\<lambda>kv. float_sub rt0 100 (msg_timestamp (snd kv)) > 30) (pending_acks queue2))))
        @ partitions queue2 p"
    by blast
  have "map fst (pending_acks q') = [''c1:m2'']"
    unfolding pa by (simp add: queue2_def rt0_def)
  moreover have "map message_id (partitions q' 0) = [''m1'']"
    using pt by (simp add: queue2_def queue0_def rt0_def)
  ultimately show ?thesis using d run by simp
qed

subsection \<open>C7: acknowledge\<close>

text \<open>What \<^verbatim>\<open>acknowledge\<close> does, in terms of the string key it builds.\<close>

lemma acknowledge_by_key:
  "fst (acknowledge c mid q) = (ack_key c mid \<in> fst ` set (pending_acks q)) \<and>
   pending_acks (snd (acknowledge c mid q))
     = filter (\<lambda>kv. fst kv \<noteq> ack_key c mid) (pending_acks q) \<and>
   ack_key c mid \<notin> fst ` set (pending_acks (snd (acknowledge c mid q))) \<and>
   partitions (snd (acknowledge c mid q)) = partitions q \<and>
   (ack_key c mid \<notin> fst ` set (pending_acks q) \<longrightarrow> snd (acknowledge c mid q) = q)"
proof (cases "map_of (pending_acks q) (ack_key c mid)")
  case None
  then have out: "ack_key c mid \<notin> fst ` set (pending_acks q)"
    by (simp add: map_of_eq_None_iff)
  then have "filter (\<lambda>kv. fst kv \<noteq> ack_key c mid) (pending_acks q) = pending_acks q"
    by (force simp: filter_id_conv)
  with None out show ?thesis
    by (simp add: acknowledge_def)
next
  case (Some message)
  then have "ack_key c mid \<in> fst ` set (pending_acks q)"
    by (metis map_of_eq_None_iff option.distinct(1))
  with Some show ?thesis
    by (auto simp: acknowledge_def dict_del_def)
qed

lemma key_consumer_plain: "CHR '':'' \<notin> set (key_consumer k)"
  by (auto simp: key_consumer_def dest: set_takeWhileD)

lemma key_consumer_ack_key:
  "CHR '':'' \<notin> set c \<Longrightarrow> key_consumer (ack_key c mid) = c"
  by (induction c) (auto simp: key_consumer_def ack_key_def)

lemma plain_consumers_pair:
  assumes "plain_consumers q" and "CHR '':'' \<notin> set c"
  shows "pair_pending q c mid \<longleftrightarrow> ack_key c mid \<in> fst ` set (pending_acks q)"
proof (cases "map_of (pending_acks q) (ack_key c mid)")
  case None
  then have "ack_key c mid \<notin> fst ` set (pending_acks q)"
    by (simp add: map_of_eq_None_iff)
  with None show ?thesis
    by (simp add: pair_pending_def)
next
  case (Some message)
  then have mem: "(ack_key c mid, message) \<in> set (pending_acks q)"
    by (rule map_of_SomeD)
  with assms(1) have "ack_key c mid = ack_key (key_consumer (ack_key c mid)) (message_id message)"
    by (force simp: plain_consumers_def)
  from ack_key_inject[OF assms(2) key_consumer_plain this]
  have "message_id message = mid" by simp
  moreover from mem have "ack_key c mid \<in> fst ` set (pending_acks q)"
    by force
  ultimately show ?thesis
    using Some by (simp add: pair_pending_def)
qed

lemma plain_consumers_consume_turn:
  assumes "plain_consumers q" and "CHR '':'' \<notin> set c"
  shows "plain_consumers (snd (consume_turn rt t start_time timeout p c q))"
proof -
  have set_upd: "set (dict_set d k v) \<subseteq> insert (k, v) (set d)"
    for d :: "(string \<times> 'a Message) list" and k v
    by (induction d k v rule: dict_set.induct) auto
  have one: "plain_consumers (q\<lparr>partitions := pt, pending_acks := dict_set (pending_acks q)
                 (ack_key c (message_id m)) m', consumed := n\<rparr>)"
    if "message_id m' = message_id m" for pt m m' n
    using assms that set_upd[of "pending_acks q" "ack_key c (message_id m)" m']
    by (auto simp: plain_consumers_def key_consumer_ack_key)
  show ?thesis
    using assms(1)
    by (auto simp: consume_turn_def Let_def split: list.splits intro!: one)
qed

lemma plain_consumers_acknowledge:
  "plain_consumers q \<Longrightarrow> plain_consumers (snd (acknowledge c mid q))"
  by (auto simp: plain_consumers_def acknowledge_def dict_del_def split: option.splits)

text \<open>
  Counterexample to C7 as stated. Consumer \<open>c1\<close> is delivered the message
  \<open>node-1:1.5:0\<close>, so that the pair \<open>(c1, node-1:1.5:0)\<close> is pending and the pair
  \<open>(c1:node-1, 1.5:0)\<close> is not: no message \<open>1.5:0\<close> exists. Both pairs have the key
  \<open>c1:node-1:1.5:0\<close>, and \<^verbatim>\<open>acknowledge('c1:node-1', '1.5:0')\<close> returns true and removes
  the entry of \<open>c1\<close>.
\<close>

theorem acknowledge_collision_counterexample:
  "\<exists>q1 m q2.
      produce rt0 ''1.5'' 1.5 ''x'' None queue0 = Inr (''node-1:1.5:0'', q1) \<and>
      consume_turn rt0 2 2 5 0 ''c1'' q1 = (Some m, q2) \<and>
      pair_pending q2 ''c1'' ''node-1:1.5:0'' \<and>
      \<not> pair_pending q2 ''c1:node-1'' ''1.5:0'' \<and>
      fst (acknowledge ''c1:node-1'' ''1.5:0'' q2) \<and>
      pending_acks (snd (acknowledge ''c1:node-1'' ''1.5:0'' q2)) = []"
  by (simp add: queue_eval pair_pending_def rt0_def queue0_def)

text \<open>
  Claim C7, amended. When no consumer id holds a colon, neither the caller's nor those
  under which the pending entries were filed (\<^const>\<open>plain_consumers\<close>, which \<^verbatim>\<open>consume\<close>
  and \<^verbatim>\<open>acknowledge\<close> keep for such ids), \<^verbatim>\<open>acknowledge(consumer_id, message_id)\<close>
  returns true exactly when the pair is pending; afterwards the pair is not pending and
  every entry of another key is kept; the partitions are never touched; and for a pair
  that is not pending the whole state of the node is unchanged.
\<close>

theorem acknowledge_pending:
  assumes "plain_consumers q" and "CHR '':'' \<notin> set c"
  shows "fst (acknowledge c mid q) = pair_pending q c mid \<and>
     \<not> pair_pending (snd (acknowledge c mid q)) c mid \<and>
     pending_acks (snd (acknowledge c mid q))
       = filter (\<lambda>kv. fst kv \<noteq> ack_key c mid) (pending_acks q) \<and>
     partitions (snd (acknowledge c mid q)) = partitions q \<and>
     (\<not> pair_pending q c mid \<longrightarrow> snd (acknowledge c mid q) = q)"
proof -
  note key = acknowledge_by_key[of c mid q]
  note pair = plain_consumers_pair[OF assms, of mid]
  have "ack_key c mid \<notin> fst ` set (pending_acks (snd (acknowledge c mid q)))"
    using key by blast
  then have after: "\<not> pair_pending (snd (acknowledge c mid q)) c mid"
    using plain_consumers_pair[OF plain_consumers_acknowledge[OF assms(1), of c mid] assms(2), of mid]
    by blast
  from key pair after show ?thesis by simp
qed

text \<open>
  Witness for C7 amended: \<open>(c1, m1)\<close> is pending and is acknowledged; \<open>(c1, m2)\<close> is
  unknown.
\<close>

theorem acknowledge_pending_witness:
  "plain_consumers queue1 \<and> CHR '':'' \<notin> set ''c1'' \<and>
   pair_pending queue1 ''c1'' ''m1'' \<and>
   fst (acknowledge ''c1'' ''m1'' queue1) \<and> pending_acks (snd (acknowledge ''c1'' ''m1'' queue1)) = [] \<and>
   \<not> pair_pending queue1 ''c1'' ''m2'' \<and>
   \<not> fst (acknowledge ''c1'' ''m2'' queue1) \<and> snd (acknowledge ''c1'' ''m2'' queue1) = queue1"
proof -
  have pc: "plain_consumers queue1"
    by (simp add: plain_consumers_def queue1_def key_consumer_def ack_key_def)
  have c: "CHR '':'' \<notin> set ''c1''" by simp
  have p1: "pair_pending queue1 ''c1'' ''m1''" and p2: "\<not> pair_pending queue1 ''c1'' ''m2''"
    by (simp_all add: pair_pending_def queue1_def ack_key_def)
  have f: "filter (\<lambda>kv. fst kv \<noteq> ack_key ''c1'' ''m1'') (pending_acks queue1) = []"
    by (simp add: queue1_def ack_key_def)
  from acknowledge_pending[OF pc c, of "''m1''"] p1 f
  have a: "fst (acknowledge ''c1'' ''m1'' queue1)"
    "pending_acks (snd (acknowledge ''c1'' ''m1'' queue1)) = []"
    by simp_all
  from acknowledge_pending[OF pc c, of "''m2''"] p2
  have b: "\<not> fst (acknowledge ''c1'' ''m2'' queue1)" "snd (acknowledge ''c1'' ''m2'' queue1) = queue1"
    by simp_all
  from pc c p1 p2 a b show ?thesis by simp
qed

subsection \<open>C10: the partition of a produced message\<close>

text \<open>
  Claim C10. When \<^verbatim>\<open>QUEUE_PARTITIONS\<close> is positive and \<^verbatim>\<open>sorted_keys\<close> is the sorted key
  list of the ring (as \<^verbatim>\<open>add_node\<close> leaves it; the ring may be empty or not), every
  \<^verbatim>\<open>produce\<close> call, with a partition key or without one, returns a message id and
  never raises; the partition it assigns is in \<open>[0, QUEUE_PARTITIONS)\<close>; the new message
  carries that partition and the returned id, and is appended at the end of that
  partition's list; every other partition is unchanged.
\<close>

theorem produce_partition:
  assumes "0 < QUEUE_PARTITIONS rt" and "ring_consistent (consistent_hash q)"
  shows "\<exists>mid p q'. produce rt now_repr now d partition_key q = Inr (mid, q') \<and>
           choose_partition rt q partition_key = Inr p \<and>
           0 \<le> p \<and> p < QUEUE_PARTITIONS rt \<and>
           partitions q' p = partitions q p @ [new_message q now_repr now p d] \<and>
           msg_partition (new_message q now_repr now p d) = p \<and>
           message_id (new_message q now_repr now p d) = mid \<and>
           (\<forall>p'. p' \<noteq> p \<longrightarrow> partitions q' p' = partitions q p')"
proof -
  from choose_partition_range[OF assms] obtain p
    where p: "choose_partition rt q partition_key = Inr p" "0 \<le> p" "p < QUEUE_PARTITIONS rt"
    by blast
  show ?thesis
    using p
    by (cases "redis_client q") (simp_all add: produce_def Let_def new_message_def)
qed

text \<open>
  Witness for C10: 16 partitions and a ring of two nodes; the key \<open>k\<close> goes to partition
  \<open>-7 mod 16 = 9\<close>, and a message without key to partition \<open>0 mod 16 = 0\<close>.
\<close>

theorem produce_partition_witness:
  "0 < QUEUE_PARTITIONS rt0 \<and> ring_consistent (consistent_hash queue0) \<and>
   (\<exists>q'. produce rt0 ''1.5'' 1.5 ''x'' (Some ''k'') queue0 = Inr (''node-1:1.5:0'', q') \<and>
      map message_id (partitions q' 9) = [''node-1:1.5:0''] \<and>
      map msg_partition (partitions q' 9) = [9] \<and> partitions q' 0 = []) \<and>
   (\<exists>q'. produce rt0 ''1.5'' 1.5 ''x'' None queue0 = Inr (''node-1:1.5:0'', q') \<and>
      map msg_partition (partitions q' 0) = [0])"
proof -
  have h1: "0 < QUEUE_PARTITIONS rt0" by (simp add: rt0_def)
  have h2: "ring_consistent (consistent_hash queue0)"
    by (simp add: ring_consistent_def queue0_def)
  have c1: "choose_partition rt0 queue0 (Some ''k'') = Inr 9"
    by (simp add: queue_eval rt0_def queue0_def)
  have c2: "choose_partition rt0 queue0 None = Inr 0"
    by (simp add: queue_eval rt0_def queue0_def)
  have m: "message_id (new_message queue0 ''1.5'' 1.5 p ''x'') = ''node-1:1.5:0''" for p
    by (simp add: queue_eval queue0_def)
  have e: "partitions queue0 p = []" for p
    by (simp add: queue0_def)
  from produce_partition[OF h1 h2, of "''1.5''" "1.5" "''x''" "Some ''k''"] c1 m
  obtain q' where "produce rt0 ''1.5'' 1.5 ''x'' (Some ''k'') queue0 = Inr (''node-1:1.5:0'', q')"
    and "partitions q' 9 = partitions queue0 9 @ [new_message queue0 ''1.5'' 1.5 9 ''x'']"
    and "\<forall>p'. p' \<noteq> 9 \<longrightarrow> partitions q' p' = partitions queue0 p'"
    by auto
  then have a: "\<exists>q'. produce rt0 ''1.5'' 1.5 ''x'' (Some ''k'') queue0 = Inr (''node-1:1.5:0'', q') \<and>
      map message_id (partitions q' 9) = [''node-1:1.5:0''] \<and>
      map msg_partition (partitions q' 9) = [9] \<and> partitions q' 0 = []"
    using m e by (auto simp: new_message_def)
  from produce_partition[OF h1 h2, of "''1.5''" "1.5" "''x''" None] c2 m
  obtain q'' where "produce rt0 ''1.5'' 1.5 ''x'' None queue0 = Inr (''node-1:1.5:0'', q'')"
    and "partitions q'' 0 = partitions queue0 0 @ [new_message queue0 ''1.5'' 1.5 0 ''x'']"
    by auto
  then have b: "\<exists>q'. produce rt0 ''1.5'' 1.5 ''x'' None queue0 = Inr (''node-1:1.5:0'', q') \<and>
      map msg_partition (partitions q' 0) = [0]"
    using e by (auto simp: new_message_def)
  from h1 h2 a b show ?thesis by blast
qed


section \<open>Cache: proofs\<close>

lemma evict_while_drop:
  "evict_while c =
     c\<lparr>cache := drop (length (cache c) - nat (capacity_bytes c div 1024)) (cache c)\<rparr>"
proof (induction c rule: evict_while.induct)
  case (1 c)
  show ?case
  proof (cases "0 < length (cache c) \<and> capacity_bytes c < estimate_size c")
    case False
    then have "length (cache c) - nat (capacity_bytes c div 1024) = 0 \<or> cache c = []"
      by (auto simp: estimate_size_def)
    then have "drop (length (cache c) - nat (capacity_bytes c div 1024)) (cache c) = cache c"
      by auto
    moreover from False have "evict_while c = c"
      by (auto simp: evict_while.simps[of c])
    ultimately show ?thesis by simp
  next
    case True
    then obtain kv rest where xs: "cache c = kv # rest"
      by (cases "cache c") auto
    have ev: "snd (evict_lru c) = c\<lparr>cache := rest\<rparr>"
      using xs by (cases kv) (simp add: evict_lru_def)
    from True have "capacity_bytes c div 1024 < int (length (cache c))"
      by (simp add: estimate_size_def) linarith
    with True have keep: "nat (capacity_bytes c div 1024) < length (cache c)"
      by (cases "0 \<le> capacity_bytes c div 1024") (simp_all add: nat_less_iff)
    then have "length (cache c) - nat (capacity_bytes c div 1024)
        = Suc (length rest - nat (capacity_bytes c div 1024))"
      using xs by simp
    then have "drop (length (cache c) - nat (capacity_bytes c div 1024)) (cache c)
        = drop (length rest - nat (capacity_bytes c div 1024)) rest"
      using xs by simp
    moreover have "evict_while c = evict_while (c\<lparr>cache := rest\<rparr>)"
      using True ev by (simp add: evict_while.simps[of c])
    moreover have "evict_while (c\<lparr>cache := rest\<rparr>)
        = c\<lparr>cache := drop (length rest - nat (capacity_bytes c div 1024)) rest\<rparr>"
      using "1.IH"[OF True] ev by simp
    ultimately show ?thesis by simp
  qed
qed

lemma lru_put_evicts_lru:
  "cache (lru_put key line c) =
     drop (length (dict_del (cache c) key @ [(key, line)]) - nat (capacity_bytes c div 1024))
       (dict_del (cache c) key @ [(key, line)])"
  by (simp add: lru_put_def evict_while_drop)

lemma dict_del_absent: "key \<notin> fst ` set d \<Longrightarrow> dict_del d key = d"
  by (force simp: dict_del_def filter_id_conv)

lemma lru_get_absent: "key \<notin> fst ` set (cache c) \<Longrightarrow> lru_get key c = (None, c)"
  by (simp add: lru_get_def map_of_eq_None_iff[THEN iffD2])


lemma invalidate_writes_back:
  assumes "is_leader n" and "map_of (cache (lru n)) key = Some l" and "line_state l = MODIFIED"
  shows "fst (cache_invalidate key n) \<and>
         submitted (snd (cache_invalidate key n)) = submitted n @ [WriteOp key (line_value l) (c_node_id n)] \<and>
         writebacks (snd (cache_invalidate key n)) = writebacks n + 1 \<and>
         map_of (cache (lru (snd (cache_invalidate key n)))) key = None"
proof -
  have gone: "map_of (dict_del d key) key = None" for d :: "(string \<times> 'a CacheLine) list"
    by (induction d) (auto simp: dict_del_def)
  have gone2: "map_of (dict_del (d @ [(key, x)]) key) key = None"
    for d :: "(string \<times> 'a CacheLine) list" and x
    by (rule gone)
  show ?thesis
    using assms gone2
    by (simp add: cache_invalidate_def lru_get_def Let_def write_back_def submit_command_def
          lru_remove_def)
qed


lemma full_lines_length: "length full_lines = 1024"
  by (simp add: full_lines_def)

lemma full_lines_keys: "''new'' \<notin> fst ` set full_lines"
  by (auto simp: full_lines_def CacheLine_init_def add_2_eq_Suc')

subsection \<open>C8: eviction\<close>

text \<open>
  Claim C8, on the code. The leader's cache is exactly full and the written key is new.
  The \<^verbatim>\<open>put\<close> of \<^verbatim>\<open>write\<close> then evicts one line, and it is the first of the order, the
  least recently used (\<open>lru_put_evicts_lru\<close> gives the same for every \<^verbatim>\<open>put\<close>: what is
  left is a suffix of the order). But the only commands proposed are at most an
  \<^verbatim>\<open>invalidate\<close> of the written key, then the \<^verbatim>\<open>write\<close> and the \<^verbatim>\<open>register\<close> of
  the written key: no write-back of the evicted line's key and value is among them,
  whatever the state of that line, MODIFIED included, and the counters \<^verbatim>\<open>writebacks\<close>
  and \<^verbatim>\<open>evictions\<close> do not move. (\<open>invalidate_writes_back\<close>: the invalidation path
  does write a MODIFIED line back before it removes it.)
\<close>

theorem eviction_without_write_back:
  fixes n :: "'a CacheNode"
  assumes "is_leader n" and "cache (lru n) = (k0, l0) # rest"
    and "key \<notin> fst ` set (cache (lru n))"
    and "capacity_bytes (lru n) div 1024 = int (length (cache (lru n)))"
  shows "\<exists>n' inv. cache_write key v now n = (True, n') \<and>
      cache (lru n') = rest @ [(key, CacheLine_init key v MODIFIED now 0 True)] \<and>
      submitted n' = submitted n @ inv @ [WriteOp key v (c_node_id n), RegisterOp key (c_node_id n)] \<and>
      set inv \<subseteq> {InvalidateOp key (c_node_id n)} \<and>
      WriteOp k0 (line_value l0) (c_node_id n)
        \<notin> set (inv @ [WriteOp key v (c_node_id n), RegisterOp key (c_node_id n)]) \<and>
      writebacks n' = writebacks n \<and> evictions n' = evictions n"
proof -
  define inv :: "'a cache_command list" where "inv =
     (case key_locations n key of
        None \<Rightarrow> []
      | Some nodes \<Rightarrow> if nodes - {c_node_id n} = {} then [] else [InvalidateOp key (c_node_id n)])"
  define new_line where "new_line = CacheLine_init key v MODIFIED now 0 True"
  have ne: "key \<noteq> k0"
    using assms(2,3) by auto
  have n1: "n\<lparr>lru := snd (lru_get key (lru n))\<rparr> = n"
    using lru_get_absent[OF assms(3)] by simp
  have n2: "invalidate_others key n = n\<lparr>submitted := submitted n @ inv\<rparr>"
    using assms(1)
    by (auto simp: invalidate_others_def inv_def submit_command_def split: option.splits)
  have keep: "nat (capacity_bytes (lru n) div 1024) = length (cache (lru n))"
    using assms(4) by simp
  have put: "cache (lru_put key new_line (lru n)) = rest @ [(key, new_line)]"
    unfolding lru_put_evicts_lru dict_del_absent[OF assms(3)] keep
    using assms(2) by simp
  let ?n' = "n\<lparr>submitted := submitted n @ inv @
                  [WriteOp key v (c_node_id n), RegisterOp key (c_node_id n)],
               lru := lru_put key new_line (lru n)\<rparr>"
  have run: "cache_write key v now n = (True, ?n')"
    using assms(1)
    by (simp add: cache_write_def n1 n2 Let_def new_line_def[symmetric] submit_command_def
          register_location_def)
  have inv_sub: "set inv \<subseteq> {InvalidateOp key (c_node_id n)}"
    by (auto simp: inv_def split: option.splits)
  have absent: "WriteOp k0 (line_value l0) (c_node_id n)
        \<notin> set (inv @ [WriteOp key v (c_node_id n), RegisterOp key (c_node_id n)])"
    using ne inv_sub by auto
  show ?thesis
    using run put inv_sub absent
    by (intro exI[of _ ?n'] exI[of _ inv]) (simp add: new_line_def)
qed

text \<open>
  The failing input of C8: \<^verbatim>\<open>CACHE_SIZE_MB = 1\<close>, 1024 cached lines, the least recently
  used one (key \<open>k\<close>, value \<open>dirty\<close>) in state MODIFIED; the leader writes the new key
  \<open>new\<close>. The line of \<open>k\<close> is gone and only the write and the register of \<open>new\<close> were
  proposed.
\<close>

theorem eviction_without_write_back_witness:
  "is_leader cache_node0 \<and> length (cache (lru cache_node0)) = 1024 \<and>
   capacity_bytes (lru cache_node0) = 1048576 \<and>
   (\<exists>l0 rest. cache (lru cache_node0) = (''k'', l0) # rest \<and> line_state l0 = MODIFIED \<and>
       line_value l0 = ''dirty'' \<and>
       (\<exists>n'. cache_write ''new'' ''v'' 5 cache_node0 = (True, n') \<and>
          cache (lru n') = rest @ [(''new'', CacheLine_init ''new'' ''v'' MODIFIED 5 0 True)] \<and>
          submitted n' = [WriteOp ''new'' ''v'' ''node-1'', RegisterOp ''new'' ''node-1''] \<and>
          writebacks n' = 0))"
proof -
  let ?l0 = "CacheLine_init ''k'' ''dirty'' MODIFIED 0 0 True :: string CacheLine"
  let ?rest = "map (\<lambda>i. (replicate (i + 2) (CHR ''k''),
               CacheLine_init (replicate (i + 2) (CHR ''k'')) ''clean'' CACHE_EXCLUSIVE 0 0 False))
       [0..<1023] :: (string \<times> string CacheLine) list"
  have ld: "is_leader cache_node0" by (simp add: cache_node0_def)
  have c: "cache (lru cache_node0) = (''k'', ?l0) # ?rest"
    by (simp add: cache_node0_def full_lines_def)
  have len: "length (cache (lru cache_node0)) = 1024"
    by (simp add: cache_node0_def full_lines_length)
  have cap: "capacity_bytes (lru cache_node0) = 1048576"
    by (simp add: cache_node0_def LRUCache_init_def)
  have k: "''new'' \<notin> fst ` set (cache (lru cache_node0))"
    using full_lines_keys by (simp add: cache_node0_def)
  have full: "capacity_bytes (lru cache_node0) div 1024 = int (length (cache (lru cache_node0)))"
    by (simp add: cap len)
  have loc: "key_locations cache_node0 ''new'' = None" and sub: "submitted cache_node0 = []"
    and wb: "writebacks cache_node0 = 0" and nid: "c_node_id cache_node0 = ''node-1''"
    by (simp_all add: cache_node0_def)
  from eviction_without_write_back[OF ld c k full, of "''v''" 5]
  obtain n' inv where run: "cache_write ''new'' ''v'' 5 cache_node0 = (True, n')"
    and ch: "cache (lru n') = ?rest @ [(''new'', CacheLine_init ''new'' ''v'' MODIFIED 5 0 True)]"
    and sb: "submitted n' = submitted cache_node0 @ inv @
               [WriteOp ''new'' ''v'' (c_node_id cache_node0), RegisterOp ''new'' (c_node_id cache_node0)]"
    and iv: "set inv \<subseteq> {InvalidateOp ''new'' (c_node_id cache_node0)}"
    and w: "writebacks n' = writebacks cache_node0"
    by blast
  have "submitted n' = submitted (snd (cache_write ''new'' ''v'' 5 cache_node0))"
    using run by simp
  also have "\<dots> = [WriteOp ''new'' ''v'' ''node-1'', RegisterOp ''new'' ''node-1'']"
    using ld loc sub nid
    by (simp add: cache_write_def Let_def invalidate_others_def submit_command_def
          register_location_def)
  finally have sb': "submitted n' = [WriteOp ''new'' ''v'' ''node-1'', RegisterOp ''new'' ''node-1'']" .
  have st: "line_state ?l0 = MODIFIED" "line_value ?l0 = ''dirty''"
    by (simp_all add: CacheLine_init_def)
  from ld len cap c st run ch sb' w wb show ?thesis
    by (intro conjI exI[of _ ?l0] exI[of _ ?rest] exI[of _ n']) simp_all
qed


section \<open>Failure detector: proofs\<close>

lemmas fd_eval = FailureDetector_init_def heartbeat_def deque_append_def Let_def

subsection \<open>C9: sparse history\<close>

text \<open>
  Claim C9. For a node with no recorded heartbeat, \<^verbatim>\<open>phi\<close> is \<open>+\<infinity>\<close> and
  \<^verbatim>\<open>is_available\<close> returns false (and the node is then suspected), at every time. For a
  node with a recorded last heartbeat and fewer than two recorded intervals (no history
  entry, or a history of length 0 or 1), \<^verbatim>\<open>phi\<close> is 0 at every time, however long after
  the heartbeat, and \<^verbatim>\<open>is_available\<close> returns the truth value of \<open>0 < threshold\<close>: true
  for every positive threshold, as the default 8.0 with which the detector is built, and
  then the detector is unchanged.
\<close>

theorem sparse_history:
  "(fd_last_heartbeat fd node = None \<longrightarrow>
      phi now node fd = Inr Infinity \<and>
      (\<exists>fd'. is_available now node fd = Inr (False, fd') \<and> node \<in> suspected_nodes fd')) \<and>
   (fd_last_heartbeat fd node \<noteq> None \<and>
    (case heartbeat_history fd node of None \<Rightarrow> True | Some h \<Rightarrow> length h < 2) \<longrightarrow>
      phi now node fd = Inr (Finite 0) \<and>
      (\<exists>fd'. is_available now node fd = Inr (0 < threshold fd, fd') \<and>
             (0 < threshold fd \<longrightarrow> fd' = fd)))"
  by (auto simp: phi_def is_available_def Let_def split: option.splits)

text \<open>
  Witness for C9: the detector as built; \<open>n2\<close> before any heartbeat, and after the
  heartbeats at times 10 and 11 (one interval), asked at time 1000000.
\<close>

theorem sparse_history_witness:
  "fd_last_heartbeat FailureDetector_init ''n2'' = None \<and>
   phi 1000000 ''n2'' FailureDetector_init = Inr Infinity \<and>
   (\<exists>fd'. is_available 1000000 ''n2'' FailureDetector_init = Inr (False, fd')) \<and>
   fd_last_heartbeat (heartbeat 11 ''n2'' (heartbeat 10 ''n2'' FailureDetector_init)) ''n2'' = Some 11 \<and>
   heartbeat_history (heartbeat 11 ''n2'' (heartbeat 10 ''n2'' FailureDetector_init)) ''n2'' = Some [1] \<and>
   phi 1000000 ''n2'' (heartbeat 11 ''n2'' (heartbeat 10 ''n2'' FailureDetector_init)) = Inr (Finite 0) \<and>
   is_available 1000000 ''n2'' (heartbeat 11 ''n2'' (heartbeat 10 ''n2'' FailureDetector_init))
     = Inr (True, heartbeat 11 ''n2'' (heartbeat 10 ''n2'' FailureDetector_init))"
proof -
  let ?fd = "heartbeat 11 ''n2'' (heartbeat 10 ''n2'' FailureDetector_init)"
  have a: "fd_last_heartbeat FailureDetector_init ''n2'' = None"
    by (simp add: fd_eval)
  have b: "fd_last_heartbeat ?fd ''n2'' = Some 11" and c: "heartbeat_history ?fd ''n2'' = Some [1]"
    and t: "0 < threshold ?fd"
    by (simp_all add: fd_eval)
  from sparse_history[of FailureDetector_init "''n2''" 1000000] a
  have 1: "phi 1000000 ''n2'' FailureDetector_init = Inr Infinity"
    "\<exists>fd'. is_available 1000000 ''n2'' FailureDetector_init = Inr (False, fd')"
    by auto
  from sparse_history[of ?fd "''n2''" 1000000] b c t
  have 2: "phi 1000000 ''n2'' ?fd = Inr (Finite 0)"
    "is_available 1000000 ''n2'' ?fd = Inr (True, ?fd)"
    by auto
  from a b c 1 2 show ?thesis by blast
qed


end
